theory Spec2Isabelle
  imports Main "HOL-Library.Finite_Map" "HOL-Library.AList" "HOL-Library.Sublist"
begin

section \<open>JavaScript values\<close>

text \<open>
  The sanitizer of \<^verbatim>\<open>src/pages/api/chat.ts\<close> takes \<^verbatim>\<open>input: any\<close>: a value produced by
  \<^verbatim>\<open>JSON.parse\<close>. Values are modelled untyped. An object is a finite map from property
  names to values (the order of properties is not observed by any function below).
  A number is identified by its canonical rendering (what \<^verbatim>\<open>String(n)\<close> returns): this
  is all the code observes of a number, and it identifies \<^verbatim>\<open>+0\<close> with \<^verbatim>\<open>-0\<close> and
  \<^verbatim>\<open>NaN\<close> with itself exactly as the key comparison of \<^verbatim>\<open>Map\<close> and
  \<^verbatim>\<open>Array.prototype.includes\<close> do. \<open>JUndefined\<close> is the value of a property written as
  \<^verbatim>\<open>name: undefined\<close>: such a property exists, with no value. Strings are lists of
  8-bit characters.
\<close>

datatype js =
    JUndefined
  | JNull
  | JBool bool
  | JNum string
  | JStr string
  | JArr "js list"
  | JObj "(string, js) fmap"

type_synonym obj = "(string, js) fmap"

datatype error = TypeError

definition and_then :: "error + 'a \<Rightarrow> ('a \<Rightarrow> error + 'b) \<Rightarrow> error + 'b" where
  "and_then r f = (case r of Inl e \<Rightarrow> Inl e | Inr x \<Rightarrow> f x)"

text \<open>Truthiness, as tested by \<^verbatim>\<open>!v\<close>, \<^verbatim>\<open>v ? a : b\<close>, \<^verbatim>\<open>v || w\<close> and \<^verbatim>\<open>v && w\<close>.\<close>

fun truthy :: "js \<Rightarrow> bool" where
  "truthy JUndefined = False"
| "truthy JNull = False"
| "truthy (JBool b) = b"
| "truthy (JNum r) = (r \<noteq> ''0'' \<and> r \<noteq> ''NaN'')"
| "truthy (JStr s) = (s \<noteq> [])"
| "truthy (JArr xs) = True"
| "truthy (JObj m) = True"

text \<open>\<^verbatim>\<open>typeof v === 'object'\<close> (true of \<^verbatim>\<open>null\<close> and of arrays too),
  \<^verbatim>\<open>typeof v === 'string'\<close>, \<^verbatim>\<open>typeof v === 'boolean'\<close>. \<^verbatim>\<open>Array.isArray(v)\<close> is the
  pattern \<open>JArr xs\<close>.\<close>

fun typeof_object :: "js \<Rightarrow> bool" where
  "typeof_object JNull = True"
| "typeof_object (JArr xs) = True"
| "typeof_object (JObj m) = True"
| "typeof_object v = False"

fun typeof_string :: "js \<Rightarrow> bool" where
  "typeof_string (JStr s) = True"
| "typeof_string v = False"

fun typeof_boolean :: "js \<Rightarrow> bool" where
  "typeof_boolean (JBool b) = True"
| "typeof_boolean v = False"

text \<open>
  \<^verbatim>\<open>v?.k\<close>, for the property names the code reads (\<^verbatim>\<open>org\<close>, \<^verbatim>\<open>roles\<close>, \<^verbatim>\<open>useCases\<close>,
  \<^verbatim>\<open>id\<close>, \<^verbatim>\<open>name\<close>, ...), none of which is defined on the prototypes of arrays, strings,
  numbers or booleans. It is \<^verbatim>\<open>v.k\<close> as well when \<open>v\<close> is neither \<^verbatim>\<open>null\<close> nor
  \<^verbatim>\<open>undefined\<close>; on those the plain read raises \<^verbatim>\<open>TypeError\<close>, which the callers below
  write out.
\<close>

fun js_get :: "js \<Rightarrow> string \<Rightarrow> js" where
  "js_get (JObj m) k = (case fmlookup m k of Some v \<Rightarrow> v | None \<Rightarrow> JUndefined)"
| "js_get v k = JUndefined"

text \<open>
  \<^verbatim>\<open>String(v)\<close>. A primitive is rendered; an array is the comma-joined rendering of
  its elements, \<^verbatim>\<open>null\<close> and \<^verbatim>\<open>undefined\<close> elements rendering as the empty string; an
  object is \<^verbatim>\<open>[object Object]\<close>, unless it has an own property \<^verbatim>\<open>toString\<close>: a value
  parsed from JSON is never a function, so that property is not callable,
  \<^verbatim>\<open>Object.prototype.valueOf\<close> returns the object itself, and the conversion raises
  \<^verbatim>\<open>TypeError\<close>.
\<close>

fun js_String :: "js \<Rightarrow> error + string"
  and js_join :: "js list \<Rightarrow> error + string" where
  "js_String JUndefined = Inr ''undefined''"
| "js_String JNull = Inr ''null''"
| "js_String (JBool b) = Inr (if b then ''true'' else ''false'')"
| "js_String (JNum r) = Inr r"
| "js_String (JStr s) = Inr s"
| "js_String (JArr xs) = js_join xs"
| "js_String (JObj m) =
     (if fmlookup m ''toString'' = None then Inr ''[object Object]'' else Inl TypeError)"
| "js_join [] = Inr []"
| "js_join (x # xs) =
     (case (if x = JUndefined \<or> x = JNull then Inr [] else js_String x) of
        Inl e \<Rightarrow> Inl e
      | Inr s \<Rightarrow>
          (if xs = [] then Inr s
           else (case js_join xs of Inl e \<Rightarrow> Inl e | Inr t \<Rightarrow> Inr (s @ '','' @ t))))"

text \<open>The decimal rendering of a non-negative integer inside a template literal.\<close>

fun show_nat :: "nat \<Rightarrow> string" where
  "show_nat n =
     (if n < 10 then [''0123456789'' ! n]
      else show_nat (n div 10) @ [''0123456789'' ! (n mod 10)])"

declare show_nat.simps [simp del]

section \<open>The session state\<close>

text \<open>
  \<^verbatim>\<open>type AgentState = { org?: {...}; roles?: string[]; useCases?: Array<{id: string; ...}> }\<close>,
  declared alike in \<^verbatim>\<open>chat.ts\<close> and in the page component. \<open>None\<close> is an absent
  (or \<^verbatim>\<open>undefined\<close>) field: the code only tests these three fields for truthiness. All
  fields being optional, \<^verbatim>\<open>Partial<AgentState>\<close> is the same type. The organisation
  and each use case are objects, since the code spreads them key by key.
\<close>

record AgentState =
  org :: "obj option"
  roles :: "string list option"
  useCases :: "obj list option"

text \<open>\<^verbatim>\<open>useState<AgentState>({ roles: [], useCases: [] })\<close>\<close>

definition initialState :: AgentState where
  "initialState = \<lparr>org = None, roles = Some [], useCases = Some []\<rparr>"

section \<open>The sanitizer (\<^verbatim>\<open>sanitizeStateUpdates\<close>, chat.ts)\<close>

text \<open>\<^verbatim>\<open>v ? String(v) : undefined\<close>\<close>

definition string_if_truthy :: "js \<Rightarrow> error + js" where
  "string_if_truthy v =
     (if truthy v then and_then (js_String v) (\<lambda>s. Inr (JStr s)) else Inr JUndefined)"

text \<open>\<^verbatim>\<open>Array.isArray(v) ? v.filter((x) => typeof x === 'string') : undefined\<close>\<close>

fun string_elements :: "js \<Rightarrow> js" where
  "string_elements (JArr xs) = JArr (filter typeof_string xs)"
| "string_elements v = JUndefined"

text \<open>\<^verbatim>\<open>input.roles.filter((r) => typeof r === 'string')\<close>, at the declared type
  \<^verbatim>\<open>string[]\<close>.\<close>

fun strings_of :: "js list \<Rightarrow> string list" where
  "strings_of [] = []"
| "strings_of (JStr s # xs) = s # strings_of xs"
| "strings_of (v # xs) = strings_of xs"

definition risk_levels :: "string list" where
  "risk_levels = [''minimal'', ''limited'', ''high'', ''prohibited'', ''unknown'']"

text \<open>
  The callback of \<^verbatim>\<open>input.useCases.map((u, idx) => ({ id: u.id || `uc-${Date.now()}-${idx}`, ... }))\<close>.
  \<open>now idx\<close> is what \<^verbatim>\<open>Date.now()\<close> returns while element \<open>idx\<close> is mapped. The first
  property read, \<^verbatim>\<open>u.id\<close>, raises when \<open>u\<close> is \<^verbatim>\<open>null\<close> (or \<^verbatim>\<open>undefined\<close>).
\<close>

definition sanitizeUseCase :: "(nat \<Rightarrow> nat) \<Rightarrow> nat \<Rightarrow> js \<Rightarrow> error + obj" where
  "sanitizeUseCase now idx u =
     (if u = JNull \<or> u = JUndefined then Inl TypeError
      else
        and_then (string_if_truthy (js_get u ''name'')) (\<lambda>name.
        and_then (string_if_truthy (js_get u ''description'')) (\<lambda>description.
        and_then (string_if_truthy (js_get u ''process'')) (\<lambda>process.
        and_then (string_if_truthy (js_get u ''model'')) (\<lambda>model.
        and_then (string_if_truthy (js_get u ''owner'')) (\<lambda>owner.
          Inr (fmap_of_list
            [(''id'', if truthy (js_get u ''id'') then js_get u ''id''
                      else JStr (''uc-'' @ show_nat (now idx) @ ''-'' @ show_nat idx)),
             (''name'', name),
             (''description'', description),
             (''process'', process),
             (''inScope'', if typeof_boolean (js_get u ''inScope'') then js_get u ''inScope''
                           else JUndefined),
             (''risk'', if js_get u ''risk'' \<in> set (map JStr risk_levels) then js_get u ''risk''
                        else JUndefined),
             (''model'', model),
             (''data'', string_elements (js_get u ''data'')),
             (''subjects'', string_elements (js_get u ''subjects'')),
             (''owner'', owner),
             (''jurisdictions'', string_elements (js_get u ''jurisdictions''))])))))))"

text \<open>\<^verbatim>\<open>Array.prototype.map\<close> with the index; the first callback that raises ends it.\<close>

fun map_index :: "(nat \<Rightarrow> 'a \<Rightarrow> error + 'b) \<Rightarrow> nat \<Rightarrow> 'a list \<Rightarrow> error + 'b list" where
  "map_index f i [] = Inr []"
| "map_index f i (x # xs) =
     and_then (f i x) (\<lambda>y. and_then (map_index f (Suc i) xs) (\<lambda>ys. Inr (y # ys)))"

text \<open>The three sections of \<^verbatim>\<open>sanitizeStateUpdates\<close>.\<close>

definition sanitize_org :: "js \<Rightarrow> error + obj option" where
  "sanitize_org input =
     (if truthy (js_get input ''org'') \<and> typeof_object (js_get input ''org'') then
        and_then (string_if_truthy (js_get (js_get input ''org'') ''name'')) (\<lambda>name.
        and_then (string_if_truthy (js_get (js_get input ''org'') ''country'')) (\<lambda>country.
        and_then (string_if_truthy (js_get (js_get input ''org'') ''industry'')) (\<lambda>industry.
        and_then (string_if_truthy (js_get (js_get input ''org'') ''size'')) (\<lambda>sz.
          Inr (Some (fmap_of_list
            [(''name'', name), (''country'', country),
             (''industry'', industry), (''size'', sz)]))))))
      else Inr None)"

definition sanitize_roles :: "js \<Rightarrow> string list option" where
  "sanitize_roles input =
     (case js_get input ''roles'' of JArr rs \<Rightarrow> Some (strings_of rs) | _ \<Rightarrow> None)"

definition sanitize_useCases :: "(nat \<Rightarrow> nat) \<Rightarrow> js \<Rightarrow> error + obj list option" where
  "sanitize_useCases now input =
     (case js_get input ''useCases'' of
        JArr us \<Rightarrow> and_then (map_index (sanitizeUseCase now) 0 us) (\<lambda>ucs. Inr (Some ucs))
      | _ \<Rightarrow> Inr None)"

text \<open>
  \<^verbatim>\<open>function sanitizeStateUpdates(input: any): Partial<AgentState> | undefined\<close>.
  \<open>Inl TypeError\<close>: the call raises. \<open>Inr None\<close>: it returns \<^verbatim>\<open>undefined\<close>.
\<close>

definition sanitizeStateUpdates :: "(nat \<Rightarrow> nat) \<Rightarrow> js \<Rightarrow> error + AgentState option" where
  "sanitizeStateUpdates now input =
     (if \<not> truthy input \<or> \<not> typeof_object input then Inr None
      else
        and_then (sanitize_org input) (\<lambda>organisation.
        and_then (sanitize_useCases now input) (\<lambda>ucs.
          Inr (Some \<lparr>org = organisation, roles = sanitize_roles input, useCases = ucs\<rparr>))))"

section \<open>The response on the wire\<close>

text \<open>
  The handler answers with \<^verbatim>\<open>res.status(200).json({ ..., stateUpdates, useCases, ... })\<close> and
  the page reads it back with \<^verbatim>\<open>await res.json()\<close>: the sanitizer's output reaches
  \<^verbatim>\<open>mergeState\<close> only through \<^verbatim>\<open>JSON.stringify\<close> and \<^verbatim>\<open>JSON.parse\<close>. Serialisation drops
  every property whose value is \<^verbatim>\<open>undefined\<close>, writes \<^verbatim>\<open>null\<close> for an \<^verbatim>\<open>undefined\<close> array
  element and for a number that is not finite, and keeps everything else.
\<close>

primrec json_roundtrip :: "js \<Rightarrow> js" where
  "json_roundtrip JUndefined = JUndefined"
| "json_roundtrip JNull = JNull"
| "json_roundtrip (JBool b) = JBool b"
| "json_roundtrip (JNum r) =
     (if r \<in> {''NaN'', ''Infinity'', ''-Infinity''} then JNull else JNum r)"
| "json_roundtrip (JStr s) = JStr s"
| "json_roundtrip (JArr xs) =
     JArr (map (\<lambda>v. if v = JUndefined then JNull else v) (map json_roundtrip xs))"
| "json_roundtrip (JObj m) =
     JObj (fmfilter (\<lambda>k. fmlookup (fmmap json_roundtrip m) k \<noteq> Some JUndefined)
             (fmmap json_roundtrip m))"

definition json_obj :: "obj \<Rightarrow> obj" where
  "json_obj m =
     fmfilter (\<lambda>k. fmlookup (fmmap json_roundtrip m) k \<noteq> Some JUndefined)
       (fmmap json_roundtrip m)"

definition on_the_wire :: "AgentState \<Rightarrow> AgentState" where
  "on_the_wire su =
     \<lparr>org = map_option json_obj (org su),
      roles = roles su,
      useCases = map_option (map json_obj) (useCases su)\<rparr>"

section \<open>The state merger (\<^verbatim>\<open>mergeState\<close>, page component)\<close>

text \<open>\<^verbatim>\<open>{ ...a, ...b }\<close>: every own property of \<open>b\<close>, whatever its value, overrides \<open>a\<close>'s.\<close>

definition spread :: "obj \<Rightarrow> obj \<Rightarrow> obj" where
  "spread a b = a ++\<^sub>f b"

text \<open>\<^verbatim>\<open>u.id\<close>\<close>

definition uc_id :: "obj \<Rightarrow> js" where
  "uc_id u = js_get (JObj u) ''id''"

text \<open>
  \<^verbatim>\<open>const byId = new Map<string, any>()\<close>: a map that remembers the order in which its
  keys were first set. A \<^verbatim>\<open>Map\<close> compares two primitive keys by value, and an object or
  an array only with itself. The declared type of an id is \<^verbatim>\<open>string\<close>, but the sanitizer
  passes any truthy id through, an object or an array included. Every record reaches
  \<^verbatim>\<open>mergeState\<close> out of \<^verbatim>\<open>JSON.parse\<close> (\<^verbatim>\<open>res.json()\<close> for an answer, \<^verbatim>\<open>localStorage\<close>
  for the saved state), which builds a new object at each occurrence: no two records
  that \<^verbatim>\<open>mergeState\<close> compares hold the same object as their id. So an id that is an
  object or an array is a key that matches no other, and only a primitive id finds an
  entry.
\<close>

fun primitive :: "js \<Rightarrow> bool" where
  "primitive (JArr xs) = False"
| "primitive (JObj m) = False"
| "primitive v = True"

text \<open>The key \<open>a\<close> of an entry is the key \<open>b\<close> that is looked up.\<close>

definition same_key :: "js \<Rightarrow> js \<Rightarrow> bool" where
  "same_key a b = (primitive a \<and> a = b)"

text \<open>\<^verbatim>\<open>byId.get(k)\<close>\<close>

fun map_get :: "(js \<times> obj) list \<Rightarrow> js \<Rightarrow> obj option" where
  "map_get [] k = None"
| "map_get (p # byId) k = (if same_key (fst p) k then Some (snd p) else map_get byId k)"

text \<open>\<^verbatim>\<open>byId.set(k, v)\<close>: the value of an entry is replaced in place, a new key is
  appended. \<^verbatim>\<open>Array.from(byId.values())\<close> is \<open>map snd byId\<close>.\<close>

fun map_set :: "js \<Rightarrow> obj \<Rightarrow> (js \<times> obj) list \<Rightarrow> (js \<times> obj) list" where
  "map_set k v [] = [(k, v)]"
| "map_set k v (p # byId) =
     (if same_key (fst p) k then (fst p, v) # byId else p # map_set k v byId)"

text \<open>\<^verbatim>\<open>for (const u of existing) byId.set(u.id, u)\<close>\<close>

definition index_existing :: "obj list \<Rightarrow> (js \<times> obj) list" where
  "index_existing existing = fold (\<lambda>u byId. map_set (uc_id u) u byId) existing []"

text \<open>\<^verbatim>\<open>for (const u of incoming) byId.set(u.id, { ...(byId.get(u.id) || {}), ...u })\<close>\<close>

definition merge_incoming :: "obj list \<Rightarrow> (js \<times> obj) list \<Rightarrow> (js \<times> obj) list" where
  "merge_incoming incoming byId0 =
     fold (\<lambda>u byId.
             map_set (uc_id u)
               (spread (case map_get byId (uc_id u) of Some e \<Rightarrow> e | None \<Rightarrow> fmempty) u) byId)
       incoming byId0"

definition mergeUseCases :: "obj list \<Rightarrow> obj list \<Rightarrow> obj list" where
  "mergeUseCases existing incoming = map snd (merge_incoming incoming (index_existing existing))"

text \<open>
  \<^verbatim>\<open>const mergeState = (update?: Partial<AgentState>) => { if (!update) return; setAgentState(prev => ({ ...prev, ... })) }\<close>,
  as the function from the previous state and the update to the next state.
\<close>

definition mergeState :: "AgentState \<Rightarrow> AgentState option \<Rightarrow> AgentState" where
  "mergeState prev update =
     (case update of
        None \<Rightarrow> prev
      | Some upd \<Rightarrow>
          \<lparr>org = (case org upd of
                   Some o' \<Rightarrow> Some (spread (case org prev of Some p \<Rightarrow> p | None \<Rightarrow> fmempty) o')
                 | None \<Rightarrow> org prev),
           roles = (case roles upd of Some rs \<Rightarrow> Some rs | None \<Rightarrow> roles prev),
           useCases = (case useCases upd of
                   Some incoming \<Rightarrow>
                     Some (mergeUseCases (case useCases prev of Some e \<Rightarrow> e | None \<Rightarrow> [])
                             incoming)
                 | None \<Rightarrow> useCases prev)\<rparr>)"

text \<open>\<^verbatim>\<open>agentState.org?.name\<close> and its three siblings, as the page reads them.\<close>

definition org_field :: "AgentState \<Rightarrow> string \<Rightarrow> js option" where
  "org_field s f = (case org s of None \<Rightarrow> None | Some p \<Rightarrow> fmlookup p f)"

text \<open>No two entries of \<^verbatim>\<open>useCases\<close> have the same \<^verbatim>\<open>id\<close>.\<close>

definition distinct_ids :: "AgentState \<Rightarrow> bool" where
  "distinct_ids s = (case useCases s of None \<Rightarrow> True | Some ucs \<Rightarrow> distinct (map uc_id ucs))"

text \<open>Every \<^verbatim>\<open>id\<close> of the collection is a primitive, as its declared type \<^verbatim>\<open>string\<close> is.\<close>

definition primitive_ids :: "obj list option \<Rightarrow> bool" where
  "primitive_ids ucs = (case ucs of None \<Rightarrow> True | Some us \<Rightarrow> list_all (\<lambda>u. primitive (uc_id u)) us)"

text \<open>The optional fields of a use case, as \<^verbatim>\<open>AgentState\<close> declares them.\<close>

definition use_case_fields :: "string list" where
  "use_case_fields =
     [''name'', ''description'', ''process'', ''inScope'', ''risk'', ''model'', ''data'',
      ''subjects'', ''owner'', ''jurisdictions'']"

section \<open>Text: whitespace, fences and the regular expressions of the handler\<close>

text \<open>
  A character is a code unit below 256. \<^verbatim>\<open>\s\<close> and \<^verbatim>\<open>String.prototype.trim\<close> take as
  whitespace, among these, tab, line feed, vertical tab, form feed, carriage return,
  space and the no-break space.
\<close>

definition is_space :: "char \<Rightarrow> bool" where
  "is_space c =
     (c \<in> set [CHR 0x09, CHR 0x0A, CHR 0x0B, CHR 0x0C, CHR 0x0D, CHR 0x20, CHR 0xA0])"

definition trim :: "string \<Rightarrow> string" where
  "trim s = rev (dropWhile is_space (rev (dropWhile is_space s)))"

text \<open>The flag \<^verbatim>\<open>i\<close> compares characters by their upper case; no character above 127
  has an upper case below 128.\<close>

definition to_upper :: "char \<Rightarrow> char" where
  "to_upper c =
     (case map_of (zip ''abcdefghijklmnopqrstuvwxyz'' ''ABCDEFGHIJKLMNOPQRSTUVWXYZ'') c of
        Some u \<Rightarrow> u
      | None \<Rightarrow> c)"

fun ci_prefix :: "string \<Rightarrow> string \<Rightarrow> bool" where
  "ci_prefix [] s = True"
| "ci_prefix (p # ps) [] = False"
| "ci_prefix (p # ps) (c # cs) = (to_upper c = to_upper p \<and> ci_prefix ps cs)"

definition fence :: string where
  "fence = ''```''"

text \<open>The text starts with \<^verbatim>\<open>```json\<close>, in any case; the text starts with \<^verbatim>\<open>```\<close>.\<close>

definition opens_json :: "string \<Rightarrow> bool" where
  "opens_json s = ci_prefix ''```json'' s"

definition opens_fence :: "string \<Rightarrow> bool" where
  "opens_fence s = prefix fence s"

text \<open>The text before and the text after the first occurrence of \<open>p\<close> in \<open>s\<close>.\<close>

fun split_at :: "string \<Rightarrow> string \<Rightarrow> (string \<times> string) option" where
  "split_at p [] = (if p = [] then Some ([], []) else None)"
| "split_at p (c # cs) =
     (if prefix p (c # cs) then Some ([], drop (length p) (c # cs))
      else map_option (\<lambda>(a, b). (c # a, b)) (split_at p cs))"

text \<open>The text after the leftmost \<^verbatim>\<open>```json\<close> (in any case).\<close>

fun after_json_tag :: "string \<Rightarrow> string option" where
  "after_json_tag [] = None"
| "after_json_tag (c # cs) =
     (if opens_json (c # cs) then Some (drop 7 (c # cs)) else after_json_tag cs)"

text \<open>
  \<^verbatim>\<open>reply.match(/```json\s*([\s\S]*?)```/i)\<close>, the first capture group. The match starts
  at the leftmost \<^verbatim>\<open>```json\<close>: a later one is itself a fence after the first, so the
  leftmost one fails only if every one does. \<^verbatim>\<open>\s*\<close> takes the whole run of
  whitespace, a fence holding none, and the lazy group ends at the first \<^verbatim>\<open>```\<close>
  after it.
\<close>

definition fenced :: "string \<Rightarrow> string option" where
  "fenced reply =
     (case after_json_tag reply of
        None \<Rightarrow> None
      | Some rest \<Rightarrow> map_option fst (split_at fence (dropWhile is_space rest)))"

text \<open>
  \<^verbatim>\<open>reply.match(/{[\s\S]*}/)\<close>, the whole match: from the first \<^verbatim>\<open>{\<close> to the last
  \<^verbatim>\<open>}\<close> after it.
\<close>

definition plain :: "string \<Rightarrow> string option" where
  "plain reply =
     (case dropWhile (\<lambda>c. c \<noteq> CHR ''{'') reply of
        [] \<Rightarrow> None
      | c # cs \<Rightarrow>
          (case rev (dropWhile (\<lambda>c. c \<noteq> CHR ''}'') (rev cs)) of
             [] \<Rightarrow> None
           | d # ds \<Rightarrow> Some (c # d # ds)))"

text \<open>\<^verbatim>\<open>if (fenced) jsonText = fenced[1]; else { if (plain) jsonText = plain[0] }\<close>\<close>

definition jsonText :: "string \<Rightarrow> string option" where
  "jsonText reply = (case fenced reply of Some inner \<Rightarrow> Some inner | None \<Rightarrow> plain reply)"

text \<open>
  \<^verbatim>\<open>s.replace(/<opening>[\s\S]*?```/gi, '')\<close> for an opening of \<open>n\<close> characters
  recognised by \<open>opens\<close>. \<open>strip_blocks opens n k s\<close> has still \<open>k\<close> characters of the
  current match to drop. A match starts where the opening is found and a fence
  follows it; it ends with the first such fence, and the search goes on after it.
\<close>

fun strip_blocks :: "(string \<Rightarrow> bool) \<Rightarrow> nat \<Rightarrow> nat \<Rightarrow> string \<Rightarrow> string" where
  "strip_blocks opens n k [] = []"
| "strip_blocks opens n k (c # cs) =
     (if 0 < k then strip_blocks opens n (k - 1) cs
      else if opens (c # cs) then
        (case split_at fence (drop n (c # cs)) of
           Some (inner, rest) \<Rightarrow> strip_blocks opens n (n + length inner + 2) cs
         | None \<Rightarrow> c # strip_blocks opens n 0 cs)
      else c # strip_blocks opens n 0 cs)"

text \<open>\<^verbatim>\<open>reply.replace(/```json[\s\S]*?```/gi, '').replace(/```[\s\S]*?```/gi, '').trim()\<close>\<close>

definition cleanReply :: "string \<Rightarrow> string" where
  "cleanReply reply = trim (strip_blocks opens_fence 3 0 (strip_blocks opens_json 7 0 reply))"

text \<open>
  A stretch of text around the fences: it holds no \<^verbatim>\<open>```\<close> and neither begins nor ends
  with a backtick, so that a fence next to it is that fence and no other.
\<close>

definition plain_text :: "string \<Rightarrow> bool" where
  "plain_text a =
     (split_at fence a = None \<and> (a = [] \<or> (hd a \<noteq> CHR 0x60 \<and> last a \<noteq> CHR 0x60)))"

section \<open>The API handler (\<^verbatim>\<open>handler\<close>, chat.ts)\<close>

record request =
  http_method :: string
  body :: js

text \<open>\<^verbatim>\<open>process.env.OPENAI_API_KEY\<close> and \<^verbatim>\<open>process.env.OPENAI_MODEL\<close>\<close>

record environment =
  OPENAI_API_KEY :: "string option"
  OPENAI_MODEL :: "string option"

text \<open>What \<^verbatim>\<open>fetch('https://api.openai.com/v1/responses', ...)\<close> sends, next to the
  constant system prompt: the model and the envelope \<^verbatim>\<open>{ message: input, state: state ?? {} }\<close>.\<close>

record upstream_call =
  call_model :: string
  call_message :: string
  call_state :: js

text \<open>The body of the answer with status 200.\<close>

record turn_result =
  reply :: string
  suggestions :: "string list option"
  guidance :: "string list option"
  questions :: "string list option"
  examples :: "string list option"
  roadmap :: "js list option"
  stateUpdates :: "AgentState option"
  topUseCases :: "obj list option"

datatype response = Failure nat string | Success turn_result

text \<open>
  The handler up to its \<^verbatim>\<open>fetch\<close>. \<open>Inl\<close> is an answer sent without any request to the
  upstream model; \<open>Inr\<close> is the request made.
\<close>

definition handler_request :: "request \<Rightarrow> environment \<Rightarrow> response + upstream_call" where
  \<open>handler_request req env =
     (if http_method req \<noteq> ''POST'' then Inl (Failure 405 ''Method Not Allowed'')
      else
        let b = (if truthy (body req) then body req else JObj fmempty);
            input = js_get b ''input'';
            model = js_get b ''model'';
            state = js_get b ''state''
        in
          if \<not> truthy input \<or> \<not> typeof_string input
          then Inl (Failure 400 ''Missing "input" string in body'')
          else if OPENAI_API_KEY env = None \<or> OPENAI_API_KEY env = Some []
          then Inl (Failure 500 ''OPENAI_API_KEY is not set on the server'')
          else
            Inr \<lparr>call_model =
                   (case model of
                      JStr m \<Rightarrow>
                        if trim m \<noteq> [] then trim m
                        else (case OPENAI_MODEL env of
                                Some e \<Rightarrow> if e \<noteq> [] then e else ''gpt-4o-mini''
                              | None \<Rightarrow> ''gpt-4o-mini'')
                    | _ \<Rightarrow>
                        (case OPENAI_MODEL env of
                           Some e \<Rightarrow> if e \<noteq> [] then e else ''gpt-4o-mini''
                         | None \<Rightarrow> ''gpt-4o-mini'')),
                 call_message = (case input of JStr t \<Rightarrow> t | _ \<Rightarrow> []),
                 call_state =
                   (if state = JNull \<or> state = JUndefined then JObj fmempty else state)\<rparr>)\<close>

text \<open>\<^verbatim>\<open>Array.isArray(obj?.k) ? obj.k.filter((s) => typeof s === 'string').slice(0, n) : undefined\<close>\<close>

definition string_list :: "nat \<Rightarrow> js \<Rightarrow> string list option" where
  "string_list n v = (case v of JArr xs \<Rightarrow> Some (take n (strings_of xs)) | _ \<Rightarrow> None)"

text \<open>
  The handler from the text of the model's answer (\<^verbatim>\<open>reply = extractText(data)\<close>) to its
  own answer, without the field \<^verbatim>\<open>raw\<close> that echoes the upstream data. \<open>parse\<close> is
  \<^verbatim>\<open>JSON.parse\<close>, \<open>None\<close> when it raises \<^verbatim>\<open>SyntaxError\<close>. An exception of \<^verbatim>\<open>JSON.parse\<close>
  or of the sanitizer is caught by the inner \<^verbatim>\<open>try ... catch\<close>, which only logs it: the
  lists read before the sanitizer ran are kept.
\<close>

definition handler_reply :: "(string \<Rightarrow> js option) \<Rightarrow> (nat \<Rightarrow> nat) \<Rightarrow> string \<Rightarrow> response" where
  "handler_reply parse now text =
     (let parsed =
            (case jsonText text of
               None \<Rightarrow> None
             | Some t \<Rightarrow> if t = [] then None else parse t);
          su =
            (case parsed of
               None \<Rightarrow> None
             | Some ob \<Rightarrow>
                 if truthy (js_get ob ''stateUpdates'') \<and> typeof_object (js_get ob ''stateUpdates'')
                 then (case sanitizeStateUpdates now (js_get ob ''stateUpdates'') of
                         Inl e \<Rightarrow> None
                       | Inr r \<Rightarrow> r)
                 else None)
      in Success
           \<lparr>reply = cleanReply text,
            suggestions = Option.bind parsed (\<lambda>ob. string_list 4 (js_get ob ''suggestions'')),
            guidance = Option.bind parsed (\<lambda>ob. string_list 6 (js_get ob ''guidance'')),
            questions = Option.bind parsed (\<lambda>ob. string_list 3 (js_get ob ''questions'')),
            examples = Option.bind parsed (\<lambda>ob. string_list 3 (js_get ob ''examples'')),
            roadmap =
              Option.bind parsed
                (\<lambda>ob. case js_get ob ''roadmap'' of JArr xs \<Rightarrow> Some xs | _ \<Rightarrow> None),
            stateUpdates = su,
            topUseCases = Option.bind su useCases\<rparr>)"

section \<open>The page's turn (\<^verbatim>\<open>sendMessage\<close>, page component)\<close>

text \<open>
  \<^verbatim>\<open>const userText = text.trim(); if (!userText || loading) return;\<close> and then the request
  \<^verbatim>\<open>{ input: userText, state: agentState }\<close> to \<^verbatim>\<open>/api/chat\<close>. \<open>None\<close>: the function
  returns, having sent nothing and changed nothing.
\<close>

definition sendMessage_request :: "string \<Rightarrow> bool \<Rightarrow> AgentState \<Rightarrow> (string \<times> AgentState) option" where
  "sendMessage_request text loading agentState =
     (if trim text = [] \<or> loading then None else Some (trim text, agentState))"

text \<open>
  The state after the answer: \<^verbatim>\<open>if (data?.stateUpdates) mergeState(data.stateUpdates)\<close>, then
  \<^verbatim>\<open>if (Array.isArray(data?.useCases) && data.useCases.length > 0) mergeState({ useCases: data.useCases })\<close>;
  an answer that is not \<^verbatim>\<open>ok\<close> only adds a message to the transcript.
\<close>

definition sendMessage_response :: "response \<Rightarrow> AgentState \<Rightarrow> AgentState" where
  "sendMessage_response res agentState =
     (case res of
        Failure status err \<Rightarrow> agentState
      | Success data \<Rightarrow>
          (let s1 = (case stateUpdates data of
                       Some su \<Rightarrow> mergeState agentState (Some (on_the_wire su))
                     | None \<Rightarrow> agentState)
           in case topUseCases data of
                Some ucs \<Rightarrow>
                  if ucs \<noteq> []
                  then mergeState s1
                         (Some \<lparr>org = None, roles = None, useCases = Some (map json_obj ucs)\<rparr>)
                  else s1
              | None \<Rightarrow> s1))"

section \<open>Notions used in the proofs\<close>

text \<open>Every value of the index has its key as \<^verbatim>\<open>id\<close>.\<close>

definition keyed :: "(js \<times> obj) list \<Rightarrow> bool" where
  "keyed byId = list_all (\<lambda>(k, v). uc_id v = k) byId"

text \<open>\<^verbatim>\<open>e || {}\<close>\<close>

definition or_empty :: "obj option \<Rightarrow> obj" where
  "or_empty e = (case e of Some x \<Rightarrow> x | None \<Rightarrow> fmempty)"

text \<open>One round of the second loop of \<^verbatim>\<open>mergeState\<close>.\<close>

definition step :: "obj \<Rightarrow> (js \<times> obj) list \<Rightarrow> (js \<times> obj) list" where
  "step u byId = map_set (uc_id u) (spread (or_empty (map_get byId (uc_id u))) u) byId"

text \<open>No two entries of the index have the same primitive key.\<close>

definition pdistinct :: "(js \<times> obj) list \<Rightarrow> bool" where
  "pdistinct byId = distinct (filter primitive (map fst byId))"

text \<open>A text that holds no fence and does not end with a backtick.\<close>

definition quiet :: "string \<Rightarrow> bool" where
  "quiet a = (split_at fence a = None \<and> (a = [] \<or> last a \<noteq> CHR 0x60))"

section \<open>The merger: lemmas\<close>

lemma same_key_prim: "primitive k \<Longrightarrow> same_key a k \<longleftrightarrow> a = k"
  by (auto simp: same_key_def)

lemma same_key_eq: "same_key a k \<Longrightarrow> a = k \<and> primitive k"
  by (auto simp: same_key_def)

lemma map_get_None: "map_get M k = None \<longleftrightarrow> (\<forall>a\<in>set (map fst M). \<not> same_key a k)"
  by (induction M) auto

lemma map_get_set:
  "map_get (map_set k' v M) k = (if same_key k' k then Some v else map_get M k)"
  by (induction M) (auto simp: same_key_def)

lemma map_set_keys:
  "map fst (map_set k v M) = (if map_get M k = None then map fst M @ [k] else map fst M)"
  by (induction M) auto

lemma map_set_fresh: "map_get M k = None \<Longrightarrow> map_set k v M = M @ [(k, v)]"
  by (induction M) (auto split: if_splits)

lemma map_get_not_primitive: "\<not> primitive k \<Longrightarrow> map_get M k = None"
  by (induction M) (auto simp: same_key_def)

lemma pdistinct_map_set: "pdistinct M \<Longrightarrow> pdistinct (map_set k v M)"
proof (cases "map_get M k")
  case None
  assume d: "pdistinct M"
  have "primitive k \<Longrightarrow> k \<notin> set (map fst M)"
    using None by (auto simp: map_get_None same_key_def)
  then show ?thesis using d None by (auto simp: pdistinct_def map_set_keys)
next
  case (Some a)
  assume "pdistinct M"
  then show ?thesis using Some by (simp add: pdistinct_def map_set_keys)
qed

lemma keyed_map_set: "keyed M \<Longrightarrow> uc_id v = k \<Longrightarrow> keyed (map_set k v M)"
  by (induction M) (auto simp: keyed_def same_key_def)

lemma keyed_map_get: "keyed M \<Longrightarrow> map_get M k = Some v \<Longrightarrow> uc_id v = k"
  by (induction M) (auto simp: keyed_def same_key_def split: if_splits)

lemma uc_id_spread:
  "uc_id (spread d u) = (if fmlookup u ''id'' = None then uc_id d else uc_id u)"
  by (auto simp: uc_id_def spread_def split: option.splits)

lemma uc_id_absent: "fmlookup u ''id'' = None \<Longrightarrow> uc_id u = JUndefined"
  by (simp add: uc_id_def)

lemma uc_id_step:
  assumes "keyed A"
  shows "uc_id (spread (or_empty (map_get A (uc_id u))) u) = uc_id u"
proof (cases "fmlookup u ''id''")
  case None
  then have k: "uc_id u = JUndefined" by (rule uc_id_absent)
  show ?thesis
  proof (cases "map_get A (uc_id u)")
    case None': None
    then show ?thesis using None k by (simp add: uc_id_spread or_empty_def uc_id_def spread_def)
  next
    case (Some e)
    then have "uc_id e = uc_id u" using assms keyed_map_get by blast
    then show ?thesis using None Some by (simp add: uc_id_spread or_empty_def)
  qed
next
  case (Some a)
  then show ?thesis by (simp add: uc_id_spread)
qed

lemma merge_incoming_fold: "merge_incoming I M = fold step I M"
  unfolding merge_incoming_def step_def or_empty_def ..

lemma step_pdistinct: "pdistinct M \<Longrightarrow> pdistinct (step u M)"
  by (simp add: step_def pdistinct_map_set)

lemma step_keyed: "keyed M \<Longrightarrow> keyed (step u M)"
  unfolding step_def by (rule keyed_map_set) (auto simp: uc_id_step)

lemma fold_step_pdistinct: "pdistinct M \<Longrightarrow> pdistinct (fold step I M)"
  by (induction I arbitrary: M) (auto simp: step_pdistinct)

lemma fold_step_keyed: "keyed M \<Longrightarrow> keyed (fold step I M)"
  by (induction I arbitrary: M) (auto simp: step_keyed)

lemma index_fold_pdistinct:
  "pdistinct A \<Longrightarrow> pdistinct (fold (\<lambda>u byId. map_set (uc_id u) u byId) E A)"
  by (induction E arbitrary: A) (auto simp: pdistinct_map_set)

lemma index_fold_keyed:
  "keyed A \<Longrightarrow> keyed (fold (\<lambda>u byId. map_set (uc_id u) u byId) E A)"
  by (induction E arbitrary: A) (auto simp: keyed_map_set)

lemma index_existing_pdistinct: "pdistinct (index_existing E)"
  unfolding index_existing_def by (rule index_fold_pdistinct) (simp add: pdistinct_def)

lemma index_existing_keyed: "keyed (index_existing E)"
  unfolding index_existing_def by (rule index_fold_keyed) (simp add: keyed_def)

lemma merged_pdistinct: "pdistinct (merge_incoming I (index_existing E))"
  by (simp add: merge_incoming_fold fold_step_pdistinct index_existing_pdistinct)

lemma merged_keyed: "keyed (merge_incoming I (index_existing E))"
  by (simp add: merge_incoming_fold fold_step_keyed index_existing_keyed)

lemma keyed_ids: "keyed M \<Longrightarrow> map uc_id (map snd M) = map fst M"
  by (induction M) (auto simp: keyed_def)

lemma map_get_step:
  "map_get (step u M) k =
     (if same_key (uc_id u) k then Some (spread (or_empty (map_get M (uc_id u))) u)
      else map_get M k)"
  by (simp add: step_def map_get_set)

lemma map_get_fold_step:
  assumes "primitive k"
  shows "map_get (fold step I M) k =
     (if k \<in> uc_id ` set I
      then Some (foldl spread (or_empty (map_get M k)) (filter (\<lambda>u. uc_id u = k) I))
      else map_get M k)"
proof (induction I arbitrary: M)
  case Nil
  then show ?case by simp
next
  case (Cons u I)
  show ?case
  proof (cases "k = uc_id u")
    case True
    have none: "k \<notin> uc_id ` set I \<Longrightarrow> filter (\<lambda>x. uc_id x = k) I = []"
      by (auto simp: filter_empty_conv)
    have "same_key (uc_id u) k" using True assms by (simp add: same_key_def)
    then show ?thesis
      using True none Cons.IH [of "step u M"] by (simp add: map_get_step or_empty_def)
  next
    case False
    then have "\<not> same_key (uc_id u) k" by (auto simp: same_key_def)
    then show ?thesis
      using False Cons.IH [of "step u M"] by (auto simp: map_get_step)
  qed
qed

lemma map_get_index_fold:
  assumes "primitive k"
  shows "map_get (fold (\<lambda>u byId. map_set (uc_id u) u byId) E A) k =
     (case filter (\<lambda>e. uc_id e = k) E of [] \<Rightarrow> map_get A k | x # xs \<Rightarrow> Some (last (x # xs)))"
proof (induction E arbitrary: A)
  case Nil
  then show ?case by simp
next
  case (Cons u E)
  show ?case
    using Cons.IH [of "map_set (uc_id u) u A"] assms
    by (auto simp: map_get_set same_key_def split: list.splits)
qed

lemma map_get_index_existing:
  "primitive k \<Longrightarrow> filter (\<lambda>e. uc_id e = k) E = [e] \<Longrightarrow> map_get (index_existing E) k = Some e"
  by (simp add: index_existing_def map_get_index_fold)

lemma pdistinct_tail: "pdistinct (p # M) \<Longrightarrow> pdistinct M"
  by (auto simp: pdistinct_def split: if_splits)

lemma entries_with_id:
  assumes "pdistinct M" "keyed M" "primitive k" "map_get M k = Some v"
  shows "filter (\<lambda>r. uc_id r = k) (map snd M) = [v]"
  using assms
proof (induction M)
  case Nil
  then show ?case by simp
next
  case (Cons p M)
  obtain a b where p: "p = (a, b)" by (cases p)
  have kb: "uc_id b = a" and kM: "keyed M" using Cons.prems(2) by (auto simp: keyed_def p)
  have dM: "pdistinct M" using Cons.prems(1) by (rule pdistinct_tail)
  show ?case
  proof (cases "a = k")
    case True
    then have v: "v = b" using Cons.prems(3,4) by (simp add: p same_key_def)
    have fresh: "a \<notin> fst ` set M"
      using Cons.prems(1,3) True by (auto simp: pdistinct_def p)
    have "\<And>q. q \<in> set M \<Longrightarrow> uc_id (snd q) \<noteq> k"
    proof -
      fix q assume q: "q \<in> set M"
      then have "uc_id (snd q) = fst q" using kM by (auto simp: keyed_def list_all_iff)
      moreover have "fst q \<noteq> a" using q fresh by auto
      ultimately show "uc_id (snd q) \<noteq> k" using True by simp
    qed
    then have "filter (\<lambda>r. uc_id r = k) (map snd M) = []"
      by (auto simp: filter_empty_conv)
    then show ?thesis using True kb v by (simp add: p)
  next
    case False
    then have "map_get M k = Some v" using Cons.prems(4) by (simp add: p same_key_def)
    from Cons.IH [OF dM kM Cons.prems(3) this] show ?thesis using False kb by (simp add: p)
  qed
qed

lemma foldl_spread: "foldl spread a xs = spread a (foldl spread fmempty xs)"
proof (induction xs arbitrary: a)
  case Nil
  then show ?case by (simp add: spread_def)
next
  case (Cons x xs)
  have "foldl spread a (x # xs) = spread (spread a x) (foldl spread fmempty xs)"
    using Cons.IH [of "spread a x"] by simp
  also have "\<dots> = spread a (spread x (foldl spread fmempty xs))"
    by (simp add: spread_def)
  also have "spread x (foldl spread fmempty xs) = foldl spread fmempty (x # xs)"
  proof -
    have "spread fmempty x = x" by (simp add: spread_def)
    then show ?thesis using Cons.IH [of x] by simp
  qed
  finally show ?case .
qed

lemma foldl_spread_twice: "foldl spread (foldl spread a xs) xs = foldl spread a xs"
proof -
  have "foldl spread (foldl spread a xs) xs
          = spread (spread a (foldl spread fmempty xs)) (foldl spread fmempty xs)"
    using foldl_spread [of "foldl spread a xs" xs] foldl_spread [of a xs] by simp
  also have "\<dots> = spread a (foldl spread fmempty xs)"
    unfolding spread_def by (rule fmap_ext) simp
  finally show ?thesis using foldl_spread [of a xs] by simp
qed

lemma index_eqI:
  assumes "pdistinct M" and "map fst M = map fst M'"
      and "\<forall>k. primitive k \<longrightarrow> map_get M k = map_get M' k"
      and "filter (\<lambda>p. \<not> primitive (fst p)) M = filter (\<lambda>p. \<not> primitive (fst p)) M'"
  shows "M = M'"
  using assms
proof (induction M arbitrary: M')
  case Nil
  then show ?case by simp
next
  case (Cons p M)
  from Cons.prems(2) obtain p' N where M': "M' = p' # N" and f: "fst p = fst p'"
    and ks: "map fst M = map fst N" by (cases M') auto
  have dM: "pdistinct M" using Cons.prems(1) by (rule pdistinct_tail)
  show ?case
  proof (cases "primitive (fst p)")
    case True
    have "map_get (p # M) (fst p) = map_get (p' # N) (fst p)"
      using Cons.prems(3) True M' by simp
    then have v: "snd p = snd p'" using True f by (simp add: same_key_def)
    have hd: "p = p'" using f v by (simp add: prod_eq_iff)
    have fresh: "fst p \<notin> set (map fst M)"
      using Cons.prems(1) True by (simp add: pdistinct_def)
    have g: "\<forall>k. primitive k \<longrightarrow> map_get M k = map_get N k"
    proof (intro allI impI)
      fix k assume k: "primitive k"
      show "map_get M k = map_get N k"
      proof (cases "fst p = k")
        case True
        then have "k \<notin> set (map fst M)" "k \<notin> set (map fst N)" using fresh ks by simp_all
        then have "map_get M k = None" "map_get N k = None"
          unfolding map_get_None by (auto simp: same_key_def)
        moreover note this
        ultimately show ?thesis by simp
      next
        case False
        then have "\<not> same_key (fst p) k" "\<not> same_key (fst p') k"
          using f by (auto simp: same_key_def)
        then show ?thesis using Cons.prems(3) k M' by (metis map_get.simps(2))
      qed
    qed
    have "filter (\<lambda>p. \<not> primitive (fst p)) M = filter (\<lambda>p. \<not> primitive (fst p)) N"
      using Cons.prems(4) True f M' by simp
    from Cons.IH [OF dM ks g this] show ?thesis using hd M' by simp
  next
    case False
    have hd: "p = p'" and fl: "filter (\<lambda>p. \<not> primitive (fst p)) M = filter (\<lambda>p. \<not> primitive (fst p)) N"
      using Cons.prems(4) False f M' by simp_all
    have g: "\<forall>k. primitive k \<longrightarrow> map_get M k = map_get N k"
    proof (intro allI impI)
      fix k assume k: "primitive k"
      have "\<not> same_key (fst p) k" "\<not> same_key (fst p') k"
        using False f by (auto simp: same_key_def)
      then show "map_get M k = map_get N k"
        using Cons.prems(3) k M' by (metis map_get.simps(2))
    qed
    from Cons.IH [OF dM ks g fl] show ?thesis using hd M' by simp
  qed
qed

lemma map_set_others:
  "primitive k \<Longrightarrow>
   filter (\<lambda>p. \<not> primitive (fst p)) (map_set k v M) = filter (\<lambda>p. \<not> primitive (fst p)) M"
  by (induction M) (auto simp: same_key_def)

lemma fold_step_others:
  "\<forall>u\<in>set I. primitive (uc_id u) \<Longrightarrow>
   filter (\<lambda>p. \<not> primitive (fst p)) (fold step I M) = filter (\<lambda>p. \<not> primitive (fst p)) M"
  by (induction I arbitrary: M) (auto simp: step_def map_set_others)

lemma fold_step_keys_present:
  "\<forall>u\<in>set I. map_get M (uc_id u) \<noteq> None \<Longrightarrow> map fst (fold step I M) = map fst M"
proof (induction I arbitrary: M)
  case Nil
  then show ?case by simp
next
  case (Cons u I)
  have k: "map fst (step u M) = map fst M"
    using Cons.prems by (simp add: step_def map_set_keys)
  have "\<forall>w\<in>set I. map_get (step u M) (uc_id w) \<noteq> None"
    using Cons.prems by (simp add: map_get_step)
  from Cons.IH [OF this] show ?case using k by simp
qed

lemma fold_step_twice:
  assumes "pdistinct M" and "\<forall>u\<in>set I. primitive (uc_id u)"
  shows "fold step I (fold step I M) = fold step I M"
proof (rule index_eqI)
  let ?M1 = "fold step I M"
  show "pdistinct (fold step I ?M1)" using assms(1) by (simp add: fold_step_pdistinct)
  have "\<forall>u\<in>set I. map_get ?M1 (uc_id u) \<noteq> None"
    using assms(2) by (simp add: map_get_fold_step)
  then show "map fst (fold step I ?M1) = map fst ?M1" by (rule fold_step_keys_present)
  show "\<forall>k. primitive k \<longrightarrow> map_get (fold step I ?M1) k = map_get ?M1 k"
    by (simp add: map_get_fold_step [of _ I ?M1] map_get_fold_step [of _ I M]
          or_empty_def foldl_spread_twice)
  show "filter (\<lambda>p. \<not> primitive (fst p)) (fold step I ?M1)
          = filter (\<lambda>p. \<not> primitive (fst p)) ?M1"
    using assms(2) by (rule fold_step_others)
qed

lemma pdistinct_fresh:
  assumes "pdistinct (A @ (k, v) # M)"
  shows "map_get A k = None"
proof (cases "primitive k")
  case True
  then have "k \<notin> set (map fst A)" using assms by (auto simp: pdistinct_def)
  then show ?thesis by (auto simp: map_get_None same_key_def)
next
  case False
  then show ?thesis by (rule map_get_not_primitive)
qed

lemma reindex:
  assumes "pdistinct (A @ M)" "keyed M"
  shows "fold (\<lambda>u byId. map_set (uc_id u) u byId) (map snd M) A = A @ M"
  using assms
proof (induction M arbitrary: A)
  case Nil
  then show ?case by simp
next
  case (Cons p M)
  obtain k v where p: "p = (k, v)" by (cases p)
  have kv: "uc_id v = k" using Cons.prems(2) by (simp add: keyed_def p)
  have "map_get A k = None" using Cons.prems(1) unfolding p by (rule pdistinct_fresh)
  then have "map_set (uc_id v) v A = A @ [(k, v)]" using kv by (simp add: map_set_fresh)
  moreover have "pdistinct ((A @ [(k, v)]) @ M)" using Cons.prems(1) by (simp add: p)
  moreover have "keyed M" using Cons.prems(2) by (simp add: keyed_def)
  ultimately show ?case using Cons.IH [of "A @ [(k, v)]"] by (simp add: p)
qed

lemma mergeUseCases_twice:
  assumes "\<forall>u\<in>set I. primitive (uc_id u)"
  shows "mergeUseCases (mergeUseCases E I) I = mergeUseCases E I"
proof -
  let ?M1 = "merge_incoming I (index_existing E)"
  have "pdistinct ([] @ ?M1)" using merged_pdistinct [of I E] by simp
  then have "fold (\<lambda>u byId. map_set (uc_id u) u byId) (map snd ?M1) [] = [] @ ?M1"
    using merged_keyed by (rule reindex)
  then have a: "index_existing (map snd ?M1) = ?M1"
    by (simp add: index_existing_def)
  have b: "merge_incoming I ?M1 = ?M1"
    using fold_step_twice [OF index_existing_pdistinct assms, of E]
    by (simp add: merge_incoming_fold)
  have "mergeUseCases (mergeUseCases E I) I
          = map snd (merge_incoming I (index_existing (map snd ?M1)))"
    by (simp only: mergeUseCases_def)
  also have "\<dots> = map snd ?M1" by (simp only: a b)
  finally show ?thesis by (simp only: mergeUseCases_def)
qed

lemma map_set_key_set: "set (map fst (map_set k v M)) \<subseteq> insert k (set (map fst M))"
  by (auto simp: map_set_keys)

lemma fold_step_key_set: "set (map fst (fold step I M)) \<subseteq> set (map fst M) \<union> uc_id ` set I"
proof (induction I arbitrary: M)
  case Nil
  then show ?case by simp
next
  case (Cons u I)
  have "set (map fst (step u M)) \<subseteq> insert (uc_id u) (set (map fst M))"
    unfolding step_def by (rule map_set_key_set)
  moreover have "set (map fst (fold step I (step u M)))
      \<subseteq> set (map fst (step u M)) \<union> uc_id ` set I" by (rule Cons.IH)
  ultimately have "set (map fst (fold step I (step u M)))
      \<subseteq> insert (uc_id u) (set (map fst M)) \<union> uc_id ` set I" by blast
  then show ?case by auto
qed

lemma index_fold_key_set:
  "set (map fst (fold (\<lambda>u byId. map_set (uc_id u) u byId) E A)) \<subseteq> set (map fst A) \<union> uc_id ` set E"
proof (induction E arbitrary: A)
  case Nil
  then show ?case by simp
next
  case (Cons u E)
  have "set (map fst (map_set (uc_id u) u A)) \<subseteq> insert (uc_id u) (set (map fst A))"
    by (rule map_set_key_set)
  moreover have "set (map fst (fold (\<lambda>u byId. map_set (uc_id u) u byId) E (map_set (uc_id u) u A)))
      \<subseteq> set (map fst (map_set (uc_id u) u A)) \<union> uc_id ` set E" by (rule Cons.IH)
  ultimately have "set (map fst (fold (\<lambda>u byId. map_set (uc_id u) u byId) E (map_set (uc_id u) u A)))
      \<subseteq> insert (uc_id u) (set (map fst A)) \<union> uc_id ` set E" by blast
  then show ?case by auto
qed

lemma mergeUseCases_distinct:
  assumes "\<forall>u\<in>set E. primitive (uc_id u)" and "\<forall>u\<in>set I. primitive (uc_id u)"
  shows "distinct (map uc_id (mergeUseCases E I))"
proof -
  let ?M = "merge_incoming I (index_existing E)"
  have "set (map fst ?M) \<subseteq> uc_id ` set E \<union> uc_id ` set I"
    using fold_step_key_set [of I "index_existing E"] index_fold_key_set [of E "[]"]
    by (auto simp: merge_incoming_fold index_existing_def)
  then have "\<forall>k\<in>set (map fst ?M). primitive k" using assms by auto
  then have "filter primitive (map fst ?M) = map fst ?M" by (simp add: filter_id_conv)
  then have "distinct (map fst ?M)" using merged_pdistinct [of I E] by (simp add: pdistinct_def)
  moreover have "map uc_id (mergeUseCases E I) = map fst ?M"
    unfolding mergeUseCases_def by (rule keyed_ids) (rule merged_keyed)
  ultimately show ?thesis by simp
qed

section \<open>The sanitizer: lemmas\<close>

lemma and_then_Inr: "and_then r f = Inr y \<longleftrightarrow> (\<exists>x. r = Inr x \<and> f x = Inr y)"
  by (cases r) (auto simp: and_then_def)

lemma string_if_truthy_cases:
  assumes "string_if_truthy v = Inr w"
  shows "(truthy v \<and> (\<exists>t. js_String v = Inr t \<and> w = JStr t)) \<or> (\<not> truthy v \<and> w = JUndefined)"
  using assms by (auto simp: string_if_truthy_def and_then_Inr split: if_splits)

lemma map_index_Inr:
  "map_index f i xs = Inr ys \<Longrightarrow>
     length ys = length xs \<and> (\<forall>j<length xs. f (i + j) (xs ! j) = Inr (ys ! j))"
proof (induction xs arbitrary: i ys)
  case Nil
  then show ?case by simp
next
  case (Cons x xs)
  from Cons.prems obtain y ys' where
    y: "f i x = Inr y" and r: "map_index f (Suc i) xs = Inr ys'" and ys: "ys = y # ys'"
    by (auto simp: and_then_Inr)
  from Cons.IH [OF r] have
    l: "length ys' = length xs" and
    e: "\<forall>j<length xs. f (Suc i + j) (xs ! j) = Inr (ys' ! j)" by auto
  show ?case
  proof (intro conjI allI impI)
    show "length ys = length (x # xs)" using l ys by simp
  next
    fix j assume "j < length (x # xs)"
    then show "f (i + j) ((x # xs) ! j) = Inr (ys ! j)"
      using y e ys by (cases j) auto
  qed
qed

lemma sanitizeUseCase_id:
  assumes "sanitizeUseCase now idx u = Inr uc"
  shows "uc_id uc = (if truthy (js_get u ''id'') then js_get u ''id''
                     else JStr (''uc-'' @ show_nat (now idx) @ ''-'' @ show_nat idx))"
  using assms
  by (auto simp: sanitizeUseCase_def and_then_Inr uc_id_def split: if_splits)

lemma sanitize_useCases_of:
  assumes "sanitizeStateUpdates now input = Inr (Some su)"
  shows "sanitize_useCases now input = Inr (useCases su)"
    and "sanitize_org input = Inr (org su)"
    and "roles su = sanitize_roles input"
    and "truthy input" and "typeof_object input"
  using assms
  by (auto simp: sanitizeStateUpdates_def and_then_Inr split: if_splits)

lemma json_obj_lookup:
  "fmlookup (json_obj m) f =
     (case fmlookup m f of
        None \<Rightarrow> None
      | Some v \<Rightarrow> if json_roundtrip v = JUndefined then None else Some (json_roundtrip v))"
  by (simp add: json_obj_def split: option.splits)

lemma sanitize_org_fields:
  assumes "sanitize_org input = Inr og"
      and "truthy (js_get input ''org'')" "typeof_object (js_get input ''org'')"
      and "f \<in> {''name'', ''country'', ''industry'', ''size''}"
  shows "\<exists>p. og = Some p \<and> string_if_truthy (js_get (js_get input ''org'') f) = Inr (the (fmlookup p f))
            \<and> fmlookup p f \<noteq> None"
  using assms
  by (auto simp: sanitize_org_def and_then_Inr)

lemma json_obj_defined: "fmlookup (json_obj m) f \<noteq> Some JUndefined"
  by (auto simp: json_obj_lookup split: option.splits)

lemma json_obj_drops: "fmlookup m f = Some JUndefined \<Longrightarrow> fmlookup (json_obj m) f = None"
  by (simp add: json_obj_lookup)

lemma string_if_truthy_returns:
  assumes "js_String v \<noteq> Inl TypeError"
  shows "\<exists>w. string_if_truthy v = Inr w"
proof (cases "js_String v")
  case (Inl e)
  moreover have "e = TypeError" by (cases e) simp
  ultimately show ?thesis using assms by simp
next
  case (Inr t)
  then show ?thesis by (simp add: string_if_truthy_def and_then_def)
qed

lemma and_then_returns:
  "r = Inr x \<Longrightarrow> and_then r f = f x"
  by (simp add: and_then_def)

lemma sanitizeUseCase_returns:
  assumes "u \<noteq> JNull" and "u \<noteq> JUndefined"
      and "\<forall>f\<in>{''name'', ''description'', ''process'', ''model'', ''owner''}.
             js_String (js_get u f) \<noteq> Inl TypeError"
  shows "\<exists>uc. sanitizeUseCase now idx u = Inr uc"
proof -
  obtain a where a: "string_if_truthy (js_get u ''name'') = Inr a"
    using assms(3) string_if_truthy_returns by force
  obtain b where b: "string_if_truthy (js_get u ''description'') = Inr b"
    using assms(3) string_if_truthy_returns by force
  obtain c where c: "string_if_truthy (js_get u ''process'') = Inr c"
    using assms(3) string_if_truthy_returns by force
  obtain d where d: "string_if_truthy (js_get u ''model'') = Inr d"
    using assms(3) string_if_truthy_returns by force
  obtain e where e: "string_if_truthy (js_get u ''owner'') = Inr e"
    using assms(3) string_if_truthy_returns by force
  show ?thesis
    using assms(1,2) by (simp add: sanitizeUseCase_def a b c d e and_then_returns)
qed

lemma map_index_returns:
  "(\<forall>j<length xs. \<exists>y. f (i + j) (xs ! j) = Inr y) \<Longrightarrow> \<exists>ys. map_index f i xs = Inr ys"
proof (induction xs arbitrary: i)
  case Nil
  then show ?case by simp
next
  case (Cons x xs)
  from Cons.prems [rule_format, of 0] obtain y where y: "f i x = Inr y" by auto
  have "\<forall>j<length xs. \<exists>y. f (Suc i + j) (xs ! j) = Inr y"
    using Cons.prems by (metis Suc_less_eq add_Suc_shift length_Cons nth_Cons_Suc)
  from Cons.IH [OF this] obtain ys where "map_index f (Suc i) xs = Inr ys" by blast
  then show ?case using y by (simp add: and_then_returns)
qed

lemma sanitize_returns:
  assumes "truthy input" and "typeof_object input"
      and "\<forall>f\<in>{''name'', ''country'', ''industry'', ''size''}.
             js_String (js_get (js_get input ''org'') f) \<noteq> Inl TypeError"
      and "\<forall>us. js_get input ''useCases'' = JArr us \<longrightarrow>
             (\<forall>u\<in>set us. u \<noteq> JNull \<and> u \<noteq> JUndefined \<and>
                (\<forall>f\<in>{''name'', ''description'', ''process'', ''model'', ''owner''}.
                   js_String (js_get u f) \<noteq> Inl TypeError))"
  shows "\<exists>su. sanitizeStateUpdates now input = Inr (Some su)"
proof -
  obtain a where a: "string_if_truthy (js_get (js_get input ''org'') ''name'') = Inr a"
    using assms(3) string_if_truthy_returns by force
  obtain b where b: "string_if_truthy (js_get (js_get input ''org'') ''country'') = Inr b"
    using assms(3) string_if_truthy_returns by force
  obtain c where c: "string_if_truthy (js_get (js_get input ''org'') ''industry'') = Inr c"
    using assms(3) string_if_truthy_returns by force
  obtain d where d: "string_if_truthy (js_get (js_get input ''org'') ''size'') = Inr d"
    using assms(3) string_if_truthy_returns by force
  have o: "\<exists>og. sanitize_org input = Inr og"
    by (simp add: sanitize_org_def a b c d and_then_returns)
  have u: "\<exists>ucs. sanitize_useCases now input = Inr ucs"
  proof (cases "js_get input ''useCases''")
    case (JArr us)
    have "\<forall>j<length us. \<exists>y. sanitizeUseCase now (0 + j) (us ! j) = Inr y"
      using assms(4) JArr sanitizeUseCase_returns by (metis nth_mem)
    from map_index_returns [OF this] obtain ucs where
      "map_index (sanitizeUseCase now) 0 us = Inr ucs" by blast
    then show ?thesis by (simp add: sanitize_useCases_def JArr and_then_returns)
  qed (simp_all add: sanitize_useCases_def)
  from o u show ?thesis
    using assms(1,2) by (auto simp: sanitizeStateUpdates_def and_then_returns)
qed

lemma string_if_truthy_undefined: "string_if_truthy JUndefined = Inr JUndefined"
  by (simp add: string_if_truthy_def)

lemma sanitizeUseCase_fields:
  assumes "sanitizeUseCase now idx u = Inr y"
  shows "\<exists>w. string_if_truthy (js_get u ''name'') = Inr w \<and> fmlookup y ''name'' = Some w"
    and "\<exists>w. string_if_truthy (js_get u ''description'') = Inr w \<and>
              fmlookup y ''description'' = Some w"
    and "\<exists>w. string_if_truthy (js_get u ''process'') = Inr w \<and> fmlookup y ''process'' = Some w"
    and "\<exists>w. string_if_truthy (js_get u ''model'') = Inr w \<and> fmlookup y ''model'' = Some w"
    and "\<exists>w. string_if_truthy (js_get u ''owner'') = Inr w \<and> fmlookup y ''owner'' = Some w"
    and "fmlookup y ''inScope'' =
           Some (if typeof_boolean (js_get u ''inScope'') then js_get u ''inScope'' else JUndefined)"
    and "fmlookup y ''risk'' =
           Some (if js_get u ''risk'' \<in> set (map JStr risk_levels) then js_get u ''risk''
                 else JUndefined)"
    and "fmlookup y ''data'' = Some (string_elements (js_get u ''data''))"
    and "fmlookup y ''subjects'' = Some (string_elements (js_get u ''subjects''))"
    and "fmlookup y ''jurisdictions'' = Some (string_elements (js_get u ''jurisdictions''))"
proof -
  from assms have nn: "u \<noteq> JNull" "u \<noteq> JUndefined"
    by (auto simp: sanitizeUseCase_def)
  obtain a b c d e where
    s: "string_if_truthy (js_get u ''name'') = Inr a"
       "string_if_truthy (js_get u ''description'') = Inr b"
       "string_if_truthy (js_get u ''process'') = Inr c"
       "string_if_truthy (js_get u ''model'') = Inr d"
       "string_if_truthy (js_get u ''owner'') = Inr e"
    and y: "y = fmap_of_list
            [(''id'', if truthy (js_get u ''id'') then js_get u ''id''
                      else JStr (''uc-'' @ show_nat (now idx) @ ''-'' @ show_nat idx)),
             (''name'', a),
             (''description'', b),
             (''process'', c),
             (''inScope'', if typeof_boolean (js_get u ''inScope'') then js_get u ''inScope''
                           else JUndefined),
             (''risk'', if js_get u ''risk'' \<in> set (map JStr risk_levels) then js_get u ''risk''
                        else JUndefined),
             (''model'', d),
             (''data'', string_elements (js_get u ''data'')),
             (''subjects'', string_elements (js_get u ''subjects'')),
             (''owner'', e),
             (''jurisdictions'', string_elements (js_get u ''jurisdictions''))]"
    using assms nn by (auto simp: sanitizeUseCase_def and_then_Inr)
  show "\<exists>w. string_if_truthy (js_get u ''name'') = Inr w \<and> fmlookup y ''name'' = Some w"
    unfolding y using s(1) by simp
  show "\<exists>w. string_if_truthy (js_get u ''description'') = Inr w \<and>
             fmlookup y ''description'' = Some w"
    unfolding y using s(2) by simp
  show "\<exists>w. string_if_truthy (js_get u ''process'') = Inr w \<and> fmlookup y ''process'' = Some w"
    unfolding y using s(3) by simp
  show "\<exists>w. string_if_truthy (js_get u ''model'') = Inr w \<and> fmlookup y ''model'' = Some w"
    unfolding y using s(4) by simp
  show "\<exists>w. string_if_truthy (js_get u ''owner'') = Inr w \<and> fmlookup y ''owner'' = Some w"
    unfolding y using s(5) by simp
  show "fmlookup y ''inScope'' =
           Some (if typeof_boolean (js_get u ''inScope'') then js_get u ''inScope'' else JUndefined)"
    unfolding y by simp
  show "fmlookup y ''risk'' =
           Some (if js_get u ''risk'' \<in> set (map JStr risk_levels) then js_get u ''risk''
                 else JUndefined)"
    unfolding y by simp
  show "fmlookup y ''data'' = Some (string_elements (js_get u ''data''))"
    unfolding y by simp
  show "fmlookup y ''subjects'' = Some (string_elements (js_get u ''subjects''))"
    unfolding y by simp
  show "fmlookup y ''jurisdictions'' = Some (string_elements (js_get u ''jurisdictions''))"
    unfolding y by simp
qed

lemma sanitizeUseCase_absent:
  assumes "sanitizeUseCase now idx u = Inr y"
      and "f \<in> set use_case_fields"
      and "js_get u f = JUndefined"
  shows "fmlookup y f = Some JUndefined"
proof -
  note c = sanitizeUseCase_fields [OF assms(1)]
  have n1: "js_get u ''name'' = JUndefined \<Longrightarrow> fmlookup y ''name'' = Some JUndefined"
    using c(1) by (auto simp: string_if_truthy_undefined)
  have n2: "js_get u ''description'' = JUndefined \<Longrightarrow>
              fmlookup y ''description'' = Some JUndefined"
    using c(2) by (auto simp: string_if_truthy_undefined)
  have n3: "js_get u ''process'' = JUndefined \<Longrightarrow> fmlookup y ''process'' = Some JUndefined"
    using c(3) by (auto simp: string_if_truthy_undefined)
  have n4: "js_get u ''inScope'' = JUndefined \<Longrightarrow> fmlookup y ''inScope'' = Some JUndefined"
    using c(6) by simp
  have n5: "js_get u ''risk'' = JUndefined \<Longrightarrow> fmlookup y ''risk'' = Some JUndefined"
    using c(7) by simp
  have n6: "js_get u ''model'' = JUndefined \<Longrightarrow> fmlookup y ''model'' = Some JUndefined"
    using c(4) by (auto simp: string_if_truthy_undefined)
  have n7: "js_get u ''data'' = JUndefined \<Longrightarrow> fmlookup y ''data'' = Some JUndefined"
    using c(8) by simp
  have n8: "js_get u ''subjects'' = JUndefined \<Longrightarrow> fmlookup y ''subjects'' = Some JUndefined"
    using c(9) by simp
  have n9: "js_get u ''owner'' = JUndefined \<Longrightarrow> fmlookup y ''owner'' = Some JUndefined"
    using c(5) by (auto simp: string_if_truthy_undefined)
  have n10: "js_get u ''jurisdictions'' = JUndefined \<Longrightarrow>
               fmlookup y ''jurisdictions'' = Some JUndefined"
    using c(10) by simp
  from assms(2) have
    "f = ''name'' \<or> f = ''description'' \<or> f = ''process'' \<or> f = ''inScope'' \<or> f = ''risk'' \<or>
     f = ''model'' \<or> f = ''data'' \<or> f = ''subjects'' \<or> f = ''owner'' \<or> f = ''jurisdictions''"
    by (simp only: use_case_fields_def list.set insert_iff empty_iff simp_thms)
  then show ?thesis
    using assms(3) n1 n2 n3 n4 n5 n6 n7 n8 n9 n10 by blast
qed

lemma sanitized_use_cases:
  assumes "sanitizeStateUpdates now input = Inr (Some su)"
      and "js_get input ''useCases'' = JArr us"
  shows "\<exists>raw. useCases su = Some raw \<and> length raw = length us \<and>
           (\<forall>i<length us. sanitizeUseCase now i (us ! i) = Inr (raw ! i))"
proof -
  from sanitize_useCases_of(1) [OF assms(1)] assms(2)
  obtain raw where m: "map_index (sanitizeUseCase now) 0 us = Inr raw"
    and u: "useCases su = Some raw"
    by (auto simp: sanitize_useCases_def and_then_Inr)
  from map_index_Inr [OF m] u show ?thesis by auto
qed

section \<open>The handler's text functions: lemmas\<close>

lemma to_upper_backtick: "to_upper c = CHR 0x60 \<longleftrightarrow> c = CHR 0x60"
  by (simp add: to_upper_def)

lemma to_upper_backtick': "to_upper (CHR 0x60) = CHR 0x60"
  by (simp add: to_upper_def)

lemma to_upper_json:
  "to_upper (CHR ''j'') = CHR ''J''" "to_upper (CHR ''s'') = CHR ''S''"
  "to_upper (CHR ''o'') = CHR ''O''" "to_upper (CHR ''n'') = CHR ''N''"
  by (simp_all add: to_upper_def)

lemma split_at_Cons_None:
  "split_at p (c # cs) = None \<longleftrightarrow> \<not> prefix p (c # cs) \<and> split_at p cs = None"
  by simp

lemma split_at_drop_None: "split_at fence s = None \<Longrightarrow> split_at fence (drop k s) = None"
proof (induction s arbitrary: k)
  case Nil
  then show ?case by simp
next
  case (Cons c cs)
  then have "split_at fence cs = None" by (simp split: if_splits)
  then show ?case using Cons by (cases k) simp_all
qed

lemma quiet_tail: "quiet (c # a) \<Longrightarrow> quiet a"
  by (cases a) (auto simp: quiet_def split: if_splits)

lemma quiet_no_fence_here:
  assumes "quiet (c # a)"
  shows "\<not> prefix fence ((c # a) @ r)"
proof
  assume p: "prefix fence ((c # a) @ r)"
  have nf: "\<not> prefix fence (c # a)" using assms by (simp add: quiet_def split: if_splits)
  have l: "last (c # a) \<noteq> CHR 0x60" using assms by (simp add: quiet_def)
  show False
  proof (cases a)
    case Nil
    then show ?thesis using p l by (simp add: fence_def)
  next
    case (Cons d a')
    show ?thesis
    proof (cases a')
      case Nil
      then show ?thesis using p l Cons by (auto simp: fence_def)
    next
      case (Cons e a'')
      then show ?thesis using p nf \<open>a = d # a'\<close> by (auto simp: fence_def)
    qed
  qed
qed

lemma split_at_fence:
  "quiet a \<Longrightarrow> split_at fence (a @ fence @ r) = Some (a, r)"
proof (induction a)
  case Nil
  then show ?case by (simp add: fence_def)
next
  case (Cons c a)
  have "\<not> prefix fence ((c # a) @ fence @ r)" using Cons.prems by (rule quiet_no_fence_here)
  then show ?case using Cons.IH quiet_tail [OF Cons.prems] by simp
qed

lemma split_at_sound: "split_at p s = Some (a, b) \<Longrightarrow> s = a @ p @ b"
proof (induction s arbitrary: a b)
  case Nil
  then show ?case by (simp split: if_splits)
next
  case (Cons c cs)
  show ?case
  proof (cases "prefix p (c # cs)")
    case True
    then obtain z where z: "c # cs = p @ z" by (auto simp: prefix_def)
    have "split_at p (c # cs) = Some ([], drop (length p) (c # cs))" using True by simp
    then have "a = []" "b = z" using Cons.prems z by simp_all
    then show ?thesis using z by simp
  next
    case False
    then obtain a' where "split_at p cs = Some (a', b)" "a = c # a'"
      using Cons.prems by auto
    then show ?thesis using Cons.IH by simp
  qed
qed

lemma opens_json_prefix: "opens_json s \<Longrightarrow> prefix fence s"
proof -
  assume o: "opens_json s"
  then obtain a b c t where s: "s = a # b # c # t"
    by (cases s; cases "tl s"; cases "tl (tl s)") (auto simp: opens_json_def)
  then show ?thesis using o
    by (simp add: opens_json_def fence_def to_upper_backtick to_upper_backtick')
qed

lemma opens_fence_prefix: "opens_fence s \<Longrightarrow> prefix fence s"
  by (simp add: opens_fence_def)

lemma opens_json_fence: "opens_json (fence @ t) = ci_prefix ''json'' t"
  by (simp add: opens_json_def fence_def)

lemma after_json_tag_skip:
  "quiet a \<Longrightarrow> after_json_tag (a @ r) = after_json_tag r"
proof (induction a)
  case Nil
  then show ?case by simp
next
  case (Cons c a)
  have "\<not> opens_json ((c # a) @ r)"
    using quiet_no_fence_here [OF Cons.prems] opens_json_prefix by blast
  then show ?case using Cons.IH quiet_tail [OF Cons.prems] by simp
qed

lemma strip_blocks_skip:
  assumes "\<And>s. opens s \<Longrightarrow> prefix fence s"
  shows "quiet a \<Longrightarrow> strip_blocks opens n 0 (a @ r) = a @ strip_blocks opens n 0 r"
proof (induction a)
  case Nil
  then show ?case by simp
next
  case (Cons c a)
  have "\<not> opens ((c # a) @ r)"
    using quiet_no_fence_here [OF Cons.prems] assms by blast
  then show ?case using Cons.IH quiet_tail [OF Cons.prems] by simp
qed

lemma strip_blocks_plain:
  assumes "\<And>s. opens s \<Longrightarrow> prefix fence s"
  shows "split_at fence a = None \<Longrightarrow> strip_blocks opens n 0 a = a"
proof (induction a)
  case Nil
  then show ?case by simp
next
  case (Cons c a)
  have "\<not> prefix fence (c # a)" "split_at fence a = None"
    using Cons.prems by (simp_all split: if_splits)
  moreover have "\<not> opens (c # a)" using calculation(1) assms by blast
  ultimately show ?case using Cons.IH by simp
qed


lemma quiet_dropWhile: "quiet a \<Longrightarrow> quiet (dropWhile P a)"
proof (induction a)
  case Nil
  then show ?case by simp
next
  case (Cons c a)
  then show ?case using quiet_tail [OF Cons.prems] by simp
qed

lemma plain_text_quiet: "plain_text a \<Longrightarrow> quiet a"
  by (auto simp: plain_text_def quiet_def)

lemma plain_text_no_fence: "plain_text a \<Longrightarrow> split_at fence a = None"
  by (simp add: plain_text_def)

lemma plain_text_head: "plain_text a \<Longrightarrow> a = [] \<or> hd a \<noteq> CHR 0x60"
  by (auto simp: plain_text_def)

lemma ci_prefix_tag:
  assumes "map to_upper tag = ''JSON''"
  shows "ci_prefix ''json'' (tag @ r) \<and> length tag = 4"
proof -
  from assms obtain a b c d where t: "tag = [a, b, c, d]"
    by (auto simp: map_eq_Cons_conv)
  then show ?thesis using assms by (simp add: to_upper_json)
qed

lemma after_json_tag_here:
  assumes "map to_upper tag = ''JSON''"
  shows "after_json_tag (fence @ tag @ r) = Some r"
  using ci_prefix_tag [OF assms, of r]
  by (simp add: fence_def opens_json_def to_upper_backtick')

lemma ci_prefix_cut:
  "\<forall>q\<in>set p. to_upper q \<noteq> CHR 0x60 \<Longrightarrow> ci_prefix p (x @ CHR 0x60 # r) \<Longrightarrow> ci_prefix p x"
proof (induction p arbitrary: x)
  case Nil
  then show ?case by simp
next
  case (Cons q p)
  then show ?case by (cases x) (auto simp: to_upper_backtick')
qed

lemma not_json_start:
  assumes "\<not> ci_prefix ''json'' x"
  shows "\<not> ci_prefix ''json'' (x @ fence @ r)"
proof
  assume "ci_prefix ''json'' (x @ fence @ r)"
  then have "ci_prefix ''json'' (x @ CHR 0x60 # CHR 0x60 # CHR 0x60 # r)"
    by (simp add: fence_def)
  moreover have "\<forall>q\<in>set ''json''. to_upper q \<noteq> CHR 0x60"
    by (simp add: to_upper_json)
  ultimately have "ci_prefix ''json'' x" using ci_prefix_cut by blast
  then show False using assms by simp
qed

lemma not_tick_json_start:
  assumes "x = [] \<or> hd x \<noteq> CHR 0x60"
  shows "\<not> ci_prefix (CHR 0x60 # ''json'') (x @ fence @ r) \<and>
         \<not> ci_prefix (CHR 0x60 # CHR 0x60 # ''json'') (x @ fence @ r)"
proof (cases x)
  case Nil
  then show ?thesis
    by (simp add: fence_def to_upper_backtick' to_upper_json)
next
  case (Cons c cs)
  then show ?thesis using assms by (auto simp: to_upper_backtick to_upper_backtick')
qed

lemma opens_json_ticks:
  "opens_json (CHR 0x60 # CHR 0x60 # CHR 0x60 # t) = ci_prefix ''json'' t"
  "opens_json (CHR 0x60 # CHR 0x60 # t) = ci_prefix (CHR 0x60 # ''json'') t"
  "opens_json (CHR 0x60 # t) = ci_prefix (CHR 0x60 # CHR 0x60 # ''json'') t"
  by (simp_all add: opens_json_def to_upper_backtick')

lemma after_json_tag_fence:
  assumes "\<not> ci_prefix ''json'' t"
      and "\<not> ci_prefix (CHR 0x60 # ''json'') t \<and> \<not> ci_prefix (CHR 0x60 # CHR 0x60 # ''json'') t"
  shows "after_json_tag (fence @ t) = after_json_tag t"
  using assms by (simp add: fence_def opens_json_ticks)

lemma strip_json_fence:
  assumes "\<not> ci_prefix ''json'' t"
      and "\<not> ci_prefix (CHR 0x60 # ''json'') t \<and> \<not> ci_prefix (CHR 0x60 # CHR 0x60 # ''json'') t"
  shows "strip_blocks opens_json 7 0 (fence @ t) = fence @ strip_blocks opens_json 7 0 t"
  using assms by (simp add: fence_def opens_json_ticks)

lemma strip_blocks_drop: "strip_blocks opens n k s = strip_blocks opens n 0 (drop k s)"
proof (induction s arbitrary: k)
  case Nil
  then show ?case by simp
next
  case (Cons c cs)
  show ?case
  proof (cases k)
    case 0
    then show ?thesis by simp
  next
    case (Suc j)
    then show ?thesis using Cons.IH [of j] by simp
  qed
qed

lemma strip_blocks_match:
  assumes "opens s" and "split_at fence (drop n s) = Some (inner, rest)"
  shows "strip_blocks opens n 0 s = strip_blocks opens n 0 rest"
proof -
  from split_at_sound [OF assms(2)] have d: "drop n s = inner @ fence @ rest" .
  then have "drop n s \<noteq> []" by (simp add: fence_def)
  then have n: "n < length s" by simp
  then obtain c cs where s: "s = c # cs" by (cases s) auto
  have "Suc (n + length inner + 2) = (length inner + 3) + n" by simp
  then have "drop (Suc (n + length inner + 2)) s = drop (length inner + 3) (drop n s)"
    by (simp only: drop_drop)
  also have "\<dots> = rest" using d by (simp add: fence_def)
  finally have "drop (n + length inner + 2) cs = rest"
    unfolding s by (simp only: drop_Suc_Cons)
  then have "strip_blocks opens n (n + length inner + 2) cs = strip_blocks opens n 0 rest"
    using strip_blocks_drop [of opens n "n + length inner + 2" cs] by simp
  then show ?thesis using assms s by simp
qed

lemma strip_blocks_unclosed:
  assumes "\<And>s. opens s \<Longrightarrow> prefix fence s" and "3 \<le> n"
  shows "split_at fence (drop 3 s) = None \<Longrightarrow> strip_blocks opens n 0 s = s"
proof (induction s)
  case Nil
  then show ?case by simp
next
  case (Cons c cs)
  have "n = (n - 3) + 3" using assms(2) by simp
  then have "drop n (c # cs) = drop (n - 3) (drop 3 (c # cs))"
    by (metis drop_drop)
  then have a: "split_at fence (drop n (c # cs)) = None"
    using Cons.prems split_at_drop_None by metis
  have "drop 3 cs = drop 4 (c # cs)" by simp
  also have "\<dots> = drop 1 (drop 3 (c # cs))" by (simp only: drop_drop) simp
  finally have "drop 3 cs = drop 1 (drop 3 (c # cs))" .
  then have "split_at fence (drop 3 cs) = None"
    using Cons.prems split_at_drop_None by metis
  then show ?case using Cons.IH a by simp
qed

lemma strip_json_block:
  assumes "map to_upper tag = ''JSON''" and "quiet inner"
  shows "strip_blocks opens_json 7 0 (fence @ tag @ inner @ fence @ r)
           = strip_blocks opens_json 7 0 r"
proof (rule strip_blocks_match)
  show "opens_json (fence @ tag @ inner @ fence @ r)"
    using ci_prefix_tag [OF assms(1)] by (simp add: opens_json_fence)
  have "drop 7 (fence @ tag @ inner @ fence @ r) = inner @ fence @ r"
    using ci_prefix_tag [OF assms(1), of "[]"] by (simp add: fence_def)
  then show "split_at fence (drop 7 (fence @ tag @ inner @ fence @ r)) = Some (inner, r)"
    using assms(2) by (simp add: split_at_fence)
qed

lemma strip_fence_block:
  assumes "quiet inner"
  shows "strip_blocks opens_fence 3 0 (fence @ inner @ fence @ r)
           = strip_blocks opens_fence 3 0 r"
proof (rule strip_blocks_match)
  show "opens_fence (fence @ inner @ fence @ r)" by (simp add: opens_fence_def)
  have "drop 3 (fence @ inner @ fence @ r) = inner @ fence @ r" by (simp add: fence_def)
  then show "split_at fence (drop 3 (fence @ inner @ fence @ r)) = Some (inner, r)"
    using assms by (simp add: split_at_fence)
qed

lemma strip_json_stray:
  assumes "plain_text stray" and "\<not> ci_prefix ''json'' stray"
  shows "strip_blocks opens_json 7 0 (fence @ stray @ fence @ r)
           = fence @ stray @ strip_blocks opens_json 7 0 (fence @ r)"
proof -
  have "strip_blocks opens_json 7 0 (fence @ stray @ fence @ r)
          = fence @ strip_blocks opens_json 7 0 (stray @ fence @ r)"
    using not_json_start [OF assms(2)] not_tick_json_start [OF plain_text_head [OF assms(1)]]
    by (rule strip_json_fence)
  then show ?thesis
    using plain_text_quiet [OF assms(1)] strip_blocks_skip [OF opens_json_prefix] by simp
qed

lemma strip_json_last_fence:
  assumes "split_at fence post = None"
  shows "strip_blocks opens_json 7 0 (fence @ post) = fence @ post"
proof (rule strip_blocks_unclosed [OF opens_json_prefix])
  show "(3::nat) \<le> 7" by simp
  show "split_at fence (drop 3 (fence @ post)) = None" using assms by (simp add: fence_def)
qed

lemma after_json_tag_stray:
  assumes "plain_text stray" and "\<not> ci_prefix ''json'' stray"
  shows "after_json_tag (fence @ stray @ fence @ r) = after_json_tag (fence @ r)"
proof -
  have "after_json_tag (fence @ stray @ fence @ r) = after_json_tag (stray @ fence @ r)"
    using not_json_start [OF assms(2)] not_tick_json_start [OF plain_text_head [OF assms(1)]]
    by (rule after_json_tag_fence)
  then show ?thesis using plain_text_quiet [OF assms(1)] by (simp add: after_json_tag_skip)
qed

lemma not_space_backtick: "\<not> is_space (CHR 0x60)"
  by (simp add: is_space_def)

lemma capture_inner:
  assumes "quiet inner"
  shows "map_option fst (split_at fence (dropWhile is_space (inner @ fence @ r)))
           = Some (dropWhile is_space inner)"
proof -
  have "dropWhile is_space (inner @ fence @ r) = dropWhile is_space inner @ fence @ r"
    using not_space_backtick by (simp add: fence_def dropWhile_append3)
  then show ?thesis using quiet_dropWhile [OF assms, of is_space] by (simp add: split_at_fence)
qed

lemma input_of_body:
  "js_get (if truthy b then b else JObj fmempty) k = js_get b k"
  by (cases b) auto

section \<open>Evaluation\<close>

lemmas merge_eval =
  mergeState_def mergeUseCases_def merge_incoming_def index_existing_def uc_id_def spread_def
  initialState_def same_key_def

lemmas sanitize_eval =
  sanitizeStateUpdates_def sanitize_org_def sanitize_roles_def sanitize_useCases_def
  sanitizeUseCase_def string_if_truthy_def and_then_def risk_levels_def

lemmas text_eval =
  jsonText_def fenced_def plain_def cleanReply_def opens_json_def opens_fence_def
  to_upper_def fence_def is_space_def trim_def

section \<open>The state merger\<close>

text \<open>
  C1, as stated, fails when the id is an object. The entry of the state and the record
  of the update, each parsed from its own JSON text, hold two different objects as their
  id \<^verbatim>\<open>{k: 1}\<close>, and the \<^verbatim>\<open>Map\<close> keeps them apart: the merged collection has two entries
  with that id, the one with the name and the other with the risk.
\<close>

theorem mergeState_object_ids_apart:
  "useCases
     (mergeState
        \<lparr>org = None, roles = Some [],
         useCases = Some [fmap_of_list
           [(''id'', JObj (fmap_of_list [(''k'', JNum ''1'')])), (''name'', JStr ''A'')]]\<rparr>
        (Some \<lparr>org = None, roles = None,
               useCases = Some [fmap_of_list
                 [(''id'', JObj (fmap_of_list [(''k'', JNum ''1'')])),
                  (''risk'', JStr ''high'')]]\<rparr>))
   = Some [fmap_of_list
             [(''id'', JObj (fmap_of_list [(''k'', JNum ''1'')])), (''name'', JStr ''A'')],
           fmap_of_list
             [(''id'', JObj (fmap_of_list [(''k'', JNum ''1'')])), (''risk'', JStr ''high'')]]"
  by (simp add: merge_eval)

text \<open>
  C1, amended. Let \<open>k\<close> be a primitive value: a string, as the declared type of an id is,
  or a number, a boolean, \<^verbatim>\<open>null\<close> or \<^verbatim>\<open>undefined\<close>. When the state holds one entry with id
  \<open>k\<close> and the update brings one use case with id \<open>k\<close>, the merged collection holds a
  single entry with id \<open>k\<close>: every field present in the incoming record has the incoming
  value, every field absent from it keeps the value of the existing entry. This holds
  for every update, and so for the output of the sanitizer as the page receives it in
  the JSON answer; there, moreover, each of the ten optional fields that the use case
  given to the sanitizer does not have keeps the value of the existing entry. The
  witness is the example of the specification: merging \<^verbatim>\<open>{id: "uc-1", name: "A"}\<close> and
  then \<^verbatim>\<open>{id: "uc-1", risk: "high"}\<close> into the initial state leaves the single entry
  \<^verbatim>\<open>{id: "uc-1", name: "A", risk: "high"}\<close>, also when the second update is passed
  through the sanitizer and the JSON answer.
\<close>

theorem mergeState_field_level_union:
  assumes "useCases s = Some existing"
      and "filter (\<lambda>e. uc_id e = k) existing = [e]"
      and "primitive k"
  shows "(\<forall>u incoming x.
            useCases u = Some incoming \<longrightarrow> filter (\<lambda>x. uc_id x = k) incoming = [x] \<longrightarrow>
            (\<exists>merged r.
               useCases (mergeState s (Some u)) = Some merged \<and>
               filter (\<lambda>r. uc_id r = k) merged = [r] \<and>
               (\<forall>f v. fmlookup x f = Some v \<longrightarrow> fmlookup r f = Some v) \<and>
               (\<forall>f. fmlookup x f = None \<longrightarrow> fmlookup r f = fmlookup e f)))
       \<and> (\<forall>now input su us incoming i.
            sanitizeStateUpdates now input = Inr (Some su) \<longrightarrow>
            js_get input ''useCases'' = JArr us \<longrightarrow>
            useCases (on_the_wire su) = Some incoming \<longrightarrow>
            i < length us \<longrightarrow>
            filter (\<lambda>x. uc_id x = k) incoming = [incoming ! i] \<longrightarrow>
            (\<exists>merged r.
               useCases (mergeState s (Some (on_the_wire su))) = Some merged \<and>
               filter (\<lambda>r. uc_id r = k) merged = [r] \<and>
               (\<forall>f v. fmlookup (incoming ! i) f = Some v \<longrightarrow> fmlookup r f = Some v) \<and>
               (\<forall>f\<in>set use_case_fields.
                  js_get (us ! i) f = JUndefined \<longrightarrow> fmlookup r f = fmlookup e f)))"
proof -
  have direct: "\<exists>merged r.
               useCases (mergeState s (Some u)) = Some merged \<and>
               filter (\<lambda>r. uc_id r = k) merged = [r] \<and>
               (\<forall>f v. fmlookup x f = Some v \<longrightarrow> fmlookup r f = Some v) \<and>
               (\<forall>f. fmlookup x f = None \<longrightarrow> fmlookup r f = fmlookup e f)"
    if u: "useCases u = Some incoming" and x: "filter (\<lambda>x. uc_id x = k) incoming = [x]"
    for u incoming x
  proof -
    let ?M = "merge_incoming incoming (index_existing existing)"
    have m: "useCases (mergeState s (Some u)) = Some (map snd ?M)"
      using assms(1) u by (simp add: mergeState_def mergeUseCases_def)
    have "k \<in> uc_id ` set incoming"
    proof -
      have "x \<in> set (filter (\<lambda>x. uc_id x = k) incoming)" using x by simp
      then show ?thesis by auto
    qed
    then have g: "map_get ?M k = Some (spread e x)"
      using assms(2,3) x
      by (simp add: merge_incoming_fold map_get_fold_step map_get_index_existing or_empty_def)
    have a: "filter (\<lambda>r. uc_id r = k) (map snd ?M) = [spread e x]"
      using merged_pdistinct merged_keyed assms(3) g by (rule entries_with_id)
    have b: "\<forall>f v. fmlookup x f = Some v \<longrightarrow> fmlookup (spread e x) f = Some v"
      by (auto simp: spread_def fmlookup_dom_iff)
    have c: "\<forall>f. fmlookup x f = None \<longrightarrow> fmlookup (spread e x) f = fmlookup e f"
      by (auto simp: spread_def fmlookup_dom_iff)
    show ?thesis
      by (intro exI conjI) (rule m, rule a, rule b, rule c)
  qed
  have sanitized: "\<exists>merged r.
               useCases (mergeState s (Some (on_the_wire su))) = Some merged \<and>
               filter (\<lambda>r. uc_id r = k) merged = [r] \<and>
               (\<forall>f v. fmlookup (incoming ! i) f = Some v \<longrightarrow> fmlookup r f = Some v) \<and>
               (\<forall>f\<in>set use_case_fields.
                  js_get (us ! i) f = JUndefined \<longrightarrow> fmlookup r f = fmlookup e f)"
    if san: "sanitizeStateUpdates now input = Inr (Some su)"
      and us: "js_get input ''useCases'' = JArr us"
      and w: "useCases (on_the_wire su) = Some incoming"
      and i: "i < length us"
      and x: "filter (\<lambda>x. uc_id x = k) incoming = [incoming ! i]"
    for now input su us incoming i
  proof -
    from sanitized_use_cases [OF san us] obtain raw where
      raw: "useCases su = Some raw" and l: "length raw = length us" and
      y: "sanitizeUseCase now i (us ! i) = Inr (raw ! i)" using i by blast
    have inc: "incoming = map json_obj raw" using w raw by (simp add: on_the_wire_def)
    then have xi: "incoming ! i = json_obj (raw ! i)" using i l by simp
    from direct [OF w x] obtain merged r where
      a: "useCases (mergeState s (Some (on_the_wire su))) = Some merged" and
      b: "filter (\<lambda>r. uc_id r = k) merged = [r]" and
      c: "\<forall>f v. fmlookup (incoming ! i) f = Some v \<longrightarrow> fmlookup r f = Some v" and
      d: "\<forall>f. fmlookup (incoming ! i) f = None \<longrightarrow> fmlookup r f = fmlookup e f"
      by blast
    have t: "\<forall>f\<in>set use_case_fields.
            js_get (us ! i) f = JUndefined \<longrightarrow> fmlookup r f = fmlookup e f"
    proof (intro ballI impI)
      fix f assume "f \<in> set use_case_fields" "js_get (us ! i) f = JUndefined"
      with y have "fmlookup (raw ! i) f = Some JUndefined" by (rule sanitizeUseCase_absent)
      then have "fmlookup (incoming ! i) f = None" using xi by (simp add: json_obj_drops)
      then show "fmlookup r f = fmlookup e f" using d by simp
    qed
    show ?thesis
      by (intro exI conjI) (rule a, rule b, rule c, rule t)
  qed
  show ?thesis
  proof (intro conjI allI impI)
    fix u :: AgentState and incoming x
    assume "useCases u = Some incoming" "filter (\<lambda>x. uc_id x = k) incoming = [x]"
    then show "\<exists>merged r.
               useCases (mergeState s (Some u)) = Some merged \<and>
               filter (\<lambda>r. uc_id r = k) merged = [r] \<and>
               (\<forall>f v. fmlookup x f = Some v \<longrightarrow> fmlookup r f = Some v) \<and>
               (\<forall>f. fmlookup x f = None \<longrightarrow> fmlookup r f = fmlookup e f)"
      by (rule direct)
  next
    fix now input and su :: AgentState and us incoming i
    assume "sanitizeStateUpdates now input = Inr (Some su)"
      "js_get input ''useCases'' = JArr us"
      "useCases (on_the_wire su) = Some incoming"
      "i < length us"
      "filter (\<lambda>x. uc_id x = k) incoming = [incoming ! i]"
    then show "\<exists>merged r.
               useCases (mergeState s (Some (on_the_wire su))) = Some merged \<and>
               filter (\<lambda>r. uc_id r = k) merged = [r] \<and>
               (\<forall>f v. fmlookup (incoming ! i) f = Some v \<longrightarrow> fmlookup r f = Some v) \<and>
               (\<forall>f\<in>set use_case_fields.
                  js_get (us ! i) f = JUndefined \<longrightarrow> fmlookup r f = fmlookup e f)"
      by (rule sanitized)
  qed
qed

theorem mergeState_field_level_union_witness:
  "useCases (mergeState initialState
       (Some \<lparr>org = None, roles = None,
              useCases = Some [fmap_of_list [(''id'', JStr ''uc-1''), (''name'', JStr ''A'')]]\<rparr>))
     = Some [fmap_of_list [(''id'', JStr ''uc-1''), (''name'', JStr ''A'')]]
   \<and> primitive (JStr ''uc-1'')
   \<and> (\<exists>merged r.
         useCases (mergeState
           (mergeState initialState
              (Some \<lparr>org = None, roles = None,
                 useCases = Some [fmap_of_list [(''id'', JStr ''uc-1''), (''name'', JStr ''A'')]]\<rparr>))
           (Some \<lparr>org = None, roles = None,
              useCases = Some [fmap_of_list [(''id'', JStr ''uc-1''), (''risk'', JStr ''high'')]]\<rparr>))
           = Some merged
         \<and> filter (\<lambda>r. uc_id r = JStr ''uc-1'') merged = [r]
         \<and> fmlookup r ''id'' = Some (JStr ''uc-1'')
         \<and> fmlookup r ''risk'' = Some (JStr ''high'')
         \<and> fmlookup r ''name'' = Some (JStr ''A''))
   \<and> useCases (mergeState
           (mergeState initialState
              (Some \<lparr>org = None, roles = None,
                 useCases = Some [fmap_of_list [(''id'', JStr ''uc-1''), (''name'', JStr ''A'')]]\<rparr>))
           (Some \<lparr>org = None, roles = None,
              useCases = Some [fmap_of_list [(''id'', JStr ''uc-1''), (''risk'', JStr ''high'')]]\<rparr>))
       = Some [fmap_of_list
                 [(''id'', JStr ''uc-1''), (''name'', JStr ''A''), (''risk'', JStr ''high'')]]
   \<and> sanitizeStateUpdates (\<lambda>i. 7)
        (JObj (fmap_of_list [(''useCases'',
           JArr [JObj (fmap_of_list [(''id'', JStr ''uc-1''), (''risk'', JStr ''high'')])])]))
       = Inr (Some \<lparr>org = None, roles = None,
                useCases = Some [fmap_of_list
                  [(''id'', JStr ''uc-1''), (''name'', JUndefined),
                   (''description'', JUndefined), (''process'', JUndefined),
                   (''inScope'', JUndefined), (''risk'', JStr ''high''), (''model'', JUndefined),
                   (''data'', JUndefined), (''subjects'', JUndefined), (''owner'', JUndefined),
                   (''jurisdictions'', JUndefined)]]\<rparr>)
   \<and> (\<exists>merged r.
         useCases (mergeState
           (mergeState initialState
              (Some \<lparr>org = None, roles = None,
                 useCases = Some [fmap_of_list [(''id'', JStr ''uc-1''), (''name'', JStr ''A'')]]\<rparr>))
           (Some (on_the_wire \<lparr>org = None, roles = None,
                useCases = Some [fmap_of_list
                  [(''id'', JStr ''uc-1''), (''name'', JUndefined),
                   (''description'', JUndefined), (''process'', JUndefined),
                   (''inScope'', JUndefined), (''risk'', JStr ''high''), (''model'', JUndefined),
                   (''data'', JUndefined), (''subjects'', JUndefined), (''owner'', JUndefined),
                   (''jurisdictions'', JUndefined)]]\<rparr>)))
           = Some merged
         \<and> filter (\<lambda>r. uc_id r = JStr ''uc-1'') merged = [r]
         \<and> fmlookup r ''id'' = Some (JStr ''uc-1'')
         \<and> fmlookup r ''risk'' = Some (JStr ''high'')
         \<and> fmlookup r ''name'' = Some (JStr ''A''))"
proof -
  let ?e = "fmap_of_list [(''id'', JStr ''uc-1''), (''name'', JStr ''A'')]"
  let ?x = "fmap_of_list [(''id'', JStr ''uc-1''), (''risk'', JStr ''high'')]"
  let ?u1 = "\<lparr>org = None, roles = None, useCases = Some [?e]\<rparr>"
  let ?u2 = "\<lparr>org = None, roles = None, useCases = Some [?x]\<rparr>"
  let ?s1 = "mergeState initialState (Some ?u1)"
  let ?us = "[JObj ?x]"
  let ?input = "JObj (fmap_of_list [(''useCases'', JArr ?us)])"
  let ?raw = "fmap_of_list
                  [(''id'', JStr ''uc-1''), (''name'', JUndefined),
                   (''description'', JUndefined), (''process'', JUndefined),
                   (''inScope'', JUndefined), (''risk'', JStr ''high''), (''model'', JUndefined),
                   (''data'', JUndefined), (''subjects'', JUndefined), (''owner'', JUndefined),
                   (''jurisdictions'', JUndefined)]"
  let ?su = "\<lparr>org = None, roles = None, useCases = Some [?raw]\<rparr>"
  have h1: "useCases ?s1 = Some [?e]" by (simp add: merge_eval)
  have h2: "filter (\<lambda>e. uc_id e = JStr ''uc-1'') [?e] = [?e]" by (simp add: uc_id_def)
  have h3: "primitive (JStr ''uc-1'')" by simp
  note th = mergeState_field_level_union [OF h1 h2 h3]
  have h4: "useCases ?u2 = Some [?x]" by simp
  have h5: "filter (\<lambda>x. uc_id x = JStr ''uc-1'') [?x] = [?x]" by (simp add: uc_id_def)
  from th [THEN conjunct1, rule_format, OF h4 h5]
  obtain merged r where
    a: "useCases (mergeState ?s1 (Some ?u2)) = Some merged" and
    b: "filter (\<lambda>r. uc_id r = JStr ''uc-1'') merged = [r]" and
    c: "\<forall>f v. fmlookup ?x f = Some v \<longrightarrow> fmlookup r f = Some v" and
    d: "\<forall>f. fmlookup ?x f = None \<longrightarrow> fmlookup r f = fmlookup ?e f"
    by blast
  have r1: "fmlookup r ''id'' = Some (JStr ''uc-1'')" using c by simp
  have r2: "fmlookup r ''risk'' = Some (JStr ''high'')" using c by simp
  have r3: "fmlookup r ''name'' = Some (JStr ''A'')" using d by simp
  have direct: "\<exists>merged r.
         useCases (mergeState ?s1 (Some ?u2)) = Some merged
         \<and> filter (\<lambda>r. uc_id r = JStr ''uc-1'') merged = [r]
         \<and> fmlookup r ''id'' = Some (JStr ''uc-1'')
         \<and> fmlookup r ''risk'' = Some (JStr ''high'')
         \<and> fmlookup r ''name'' = Some (JStr ''A'')"
    by (intro exI conjI) (rule a, rule b, rule r1, rule r2, rule r3)
  have whole: "useCases (mergeState ?s1 (Some ?u2))
       = Some [fmap_of_list
                 [(''id'', JStr ''uc-1''), (''name'', JStr ''A''), (''risk'', JStr ''high'')]]"
    by (simp add: merge_eval) (rule fmap_ext, auto)
  have s1: "sanitizeStateUpdates (\<lambda>i. 7) ?input = Inr (Some ?su)"
    by (simp add: sanitize_eval)
  have s2: "js_get ?input ''useCases'' = JArr ?us" by simp
  have s3: "useCases (on_the_wire ?su) = Some [json_obj ?raw]" by (simp add: on_the_wire_def)
  have s4: "0 < length ?us" by simp
  have w1: "fmlookup (json_obj ?raw) ''id'' = Some (JStr ''uc-1'')"
    by (simp add: json_obj_lookup)
  have w2: "fmlookup (json_obj ?raw) ''risk'' = Some (JStr ''high'')"
    by (simp add: json_obj_lookup)
  have s5: "filter (\<lambda>x. uc_id x = JStr ''uc-1'') [json_obj ?raw] = [[json_obj ?raw] ! 0]"
    using w1 by (simp add: uc_id_def)
  from th [THEN conjunct2, rule_format, OF s1 s2 s3 s4 s5]
  obtain merged' r' where
    a': "useCases (mergeState ?s1 (Some (on_the_wire ?su))) = Some merged'" and
    b': "filter (\<lambda>r. uc_id r = JStr ''uc-1'') merged' = [r']" and
    c': "\<forall>f v. fmlookup ([json_obj ?raw] ! 0) f = Some v \<longrightarrow> fmlookup r' f = Some v" and
    d': "\<forall>f\<in>set use_case_fields.
            js_get (?us ! 0) f = JUndefined \<longrightarrow> fmlookup r' f = fmlookup ?e f"
    by blast
  have q1: "fmlookup r' ''id'' = Some (JStr ''uc-1'')" using c' w1 by simp
  have q2: "fmlookup r' ''risk'' = Some (JStr ''high'')" using c' w2 by simp
  have "''name'' \<in> set use_case_fields" by (simp add: use_case_fields_def)
  moreover have "js_get (?us ! 0) ''name'' = JUndefined" by simp
  ultimately have "fmlookup r' ''name'' = fmlookup ?e ''name''" using d' by blast
  then have q3: "fmlookup r' ''name'' = Some (JStr ''A'')" by simp
  have wire: "\<exists>merged r.
         useCases (mergeState ?s1 (Some (on_the_wire ?su))) = Some merged
         \<and> filter (\<lambda>r. uc_id r = JStr ''uc-1'') merged = [r]
         \<and> fmlookup r ''id'' = Some (JStr ''uc-1'')
         \<and> fmlookup r ''risk'' = Some (JStr ''high'')
         \<and> fmlookup r ''name'' = Some (JStr ''A'')"
    by (intro exI conjI) (rule a', rule b', rule q1, rule q2, rule q3)
  show ?thesis
    by (intro conjI) (rule h1, rule h3, rule direct, rule whole, rule s1, rule wire)
qed

text \<open>
  Both updates of the example passed through the sanitizer and the JSON answer, whatever
  the clock: the same single entry.
\<close>

lemma sanitized_updates_merge_fieldwise:
  "\<exists>su1 su2.
     sanitizeStateUpdates now
       (JObj (fmap_of_list [(''useCases'',
          JArr [JObj (fmap_of_list [(''id'', JStr ''uc-1''), (''name'', JStr ''A'')])])]))
       = Inr (Some su1)
     \<and> sanitizeStateUpdates now
       (JObj (fmap_of_list [(''useCases'',
          JArr [JObj (fmap_of_list [(''id'', JStr ''uc-1''), (''risk'', JStr ''high'')])])]))
       = Inr (Some su2)
     \<and> useCases (mergeState (mergeState initialState (Some (on_the_wire su1)))
                    (Some (on_the_wire su2)))
       = Some [fmap_of_list
                 [(''id'', JStr ''uc-1''), (''name'', JStr ''A''), (''risk'', JStr ''high'')]]"
  apply (simp add: sanitize_eval merge_eval on_the_wire_def json_obj_def fmmap_fmupd)
  apply (rule fmap_ext)
  apply auto
  done

text \<open>
  Merged as the sanitizer returns it, without the JSON answer in between, the same update
  overwrites the name: its record has every key, \<^verbatim>\<open>name: undefined\<close> among them. The
  page never does this: it merges what \<^verbatim>\<open>res.json()\<close> gives.
\<close>

lemma raw_sanitizer_output_overwrites:
  "\<exists>su r.
     sanitizeStateUpdates now
       (JObj (fmap_of_list [(''useCases'',
          JArr [JObj (fmap_of_list [(''id'', JStr ''uc-1''), (''risk'', JStr ''high'')])])]))
       = Inr (Some su)
     \<and> useCases
         (mergeState
            \<lparr>org = None, roles = Some [],
             useCases = Some [fmap_of_list [(''id'', JStr ''uc-1''), (''name'', JStr ''A'')]]\<rparr>
            (Some su))
       = Some [r]
     \<and> fmlookup r ''name'' = Some JUndefined"
  by (simp add: sanitize_eval merge_eval)

text \<open>
  C6. An update that carries \<^verbatim>\<open>roles\<close> replaces the roles of the state by its own:
  nothing of the previous sequence is kept. The witness is the example of the
  specification, from \<^verbatim>\<open>["Provider"]\<close> to \<^verbatim>\<open>["Deployer"]\<close>.
\<close>

theorem mergeState_roles_replaced:
  assumes "roles u = Some rs"
  shows "roles (mergeState s (Some u)) = Some rs"
  using assms by (simp add: mergeState_def)

theorem mergeState_roles_replaced_witness:
  "roles \<lparr>org = None, roles = Some [''Deployer''], useCases = None\<rparr> = Some [''Deployer'']
   \<and> roles (mergeState \<lparr>org = None, roles = Some [''Provider''], useCases = Some []\<rparr>
               (Some \<lparr>org = None, roles = Some [''Deployer''], useCases = None\<rparr>))
       = Some [''Deployer'']"
proof -
  have h: "roles \<lparr>org = None, roles = Some [''Deployer''], useCases = None\<rparr> = Some [''Deployer'']"
    by simp
  show ?thesis
    using h mergeState_roles_replaced
            [OF h, of "\<lparr>org = None, roles = Some [''Provider''], useCases = Some []\<rparr>"]
    by blast
qed

text \<open>
  C7, as stated, fails when an id is an object. The update is parsed anew each time it
  arrives, so the object \<^verbatim>\<open>{k: 1}\<close> that is its id the second time is not the one that the
  first merge stored: the \<^verbatim>\<open>Map\<close> does not find the entry and the second merge appends
  the record again. Merged once the update leaves one entry, merged twice it leaves two.
\<close>

theorem mergeState_twice_object_id:
  "mergeState
     (mergeState initialState
        (Some \<lparr>org = None, roles = None,
               useCases = Some [fmap_of_list
                 [(''id'', JObj (fmap_of_list [(''k'', JNum ''1'')])), (''name'', JStr ''A'')]]\<rparr>))
     (Some \<lparr>org = None, roles = None,
            useCases = Some [fmap_of_list
              [(''id'', JObj (fmap_of_list [(''k'', JNum ''1'')])), (''name'', JStr ''A'')]]\<rparr>)
   = \<lparr>org = None, roles = Some [],
      useCases = Some [fmap_of_list
                   [(''id'', JObj (fmap_of_list [(''k'', JNum ''1'')])), (''name'', JStr ''A'')],
                 fmap_of_list
                   [(''id'', JObj (fmap_of_list [(''k'', JNum ''1'')])), (''name'', JStr ''A'')]]\<rparr>
   \<and> mergeState initialState
        (Some \<lparr>org = None, roles = None,
               useCases = Some [fmap_of_list
                 [(''id'', JObj (fmap_of_list [(''k'', JNum ''1'')])), (''name'', JStr ''A'')]]\<rparr>)
   = \<lparr>org = None, roles = Some [],
      useCases = Some [fmap_of_list
                   [(''id'', JObj (fmap_of_list [(''k'', JNum ''1'')])), (''name'', JStr ''A'')]]\<rparr>
   \<and> mergeState
       (mergeState initialState
          (Some \<lparr>org = None, roles = None,
                 useCases = Some [fmap_of_list
                   [(''id'', JObj (fmap_of_list [(''k'', JNum ''1'')])), (''name'', JStr ''A'')]]\<rparr>))
       (Some \<lparr>org = None, roles = None,
              useCases = Some [fmap_of_list
                [(''id'', JObj (fmap_of_list [(''k'', JNum ''1'')])), (''name'', JStr ''A'')]]\<rparr>)
     \<noteq> mergeState initialState
         (Some \<lparr>org = None, roles = None,
                useCases = Some [fmap_of_list
                  [(''id'', JObj (fmap_of_list [(''k'', JNum ''1'')])), (''name'', JStr ''A'')]]\<rparr>)"
  by (simp add: merge_eval)

text \<open>
  The page itself merges the use cases of one answer twice, as \<^verbatim>\<open>data.stateUpdates\<close> and
  as \<^verbatim>\<open>data.useCases\<close>, two copies that \<^verbatim>\<open>res.json()\<close> parsed apart: one use case with
  an object as id, in one answer, leaves two entries.
\<close>

lemma page_merges_one_answer_twice:
  "useCases
     (sendMessage_response
        (Success
           \<lparr>reply = ''ok'', suggestions = None, guidance = None, questions = None,
            examples = None, roadmap = None,
            stateUpdates = Some \<lparr>org = None, roles = None,
               useCases = Some [fmap_of_list
                 [(''id'', JObj (fmap_of_list [(''k'', JNum ''1'')])), (''name'', JStr ''A''),
                  (''description'', JUndefined), (''process'', JUndefined),
                  (''inScope'', JUndefined), (''risk'', JUndefined), (''model'', JUndefined),
                  (''data'', JUndefined), (''subjects'', JUndefined), (''owner'', JUndefined),
                  (''jurisdictions'', JUndefined)]]\<rparr>,
            topUseCases = Some [fmap_of_list
                 [(''id'', JObj (fmap_of_list [(''k'', JNum ''1'')])), (''name'', JStr ''A''),
                  (''description'', JUndefined), (''process'', JUndefined),
                  (''inScope'', JUndefined), (''risk'', JUndefined), (''model'', JUndefined),
                  (''data'', JUndefined), (''subjects'', JUndefined), (''owner'', JUndefined),
                  (''jurisdictions'', JUndefined)]]\<rparr>)
        initialState)
   = Some [fmap_of_list
             [(''id'', JObj (fmap_of_list [(''k'', JNum ''1'')])), (''name'', JStr ''A'')],
           fmap_of_list
             [(''id'', JObj (fmap_of_list [(''k'', JNum ''1'')])), (''name'', JStr ''A'')]]"
proof -
  have w: "json_obj (fmap_of_list
                 [(''id'', JObj (fmap_of_list [(''k'', JNum ''1'')])), (''name'', JStr ''A''),
                  (''description'', JUndefined), (''process'', JUndefined),
                  (''inScope'', JUndefined), (''risk'', JUndefined), (''model'', JUndefined),
                  (''data'', JUndefined), (''subjects'', JUndefined), (''owner'', JUndefined),
                  (''jurisdictions'', JUndefined)])
           = fmap_of_list
               [(''id'', JObj (fmap_of_list [(''k'', JNum ''1'')])), (''name'', JStr ''A'')]"
    by (rule fmap_ext) (simp add: json_obj_lookup fmmap_fmupd)
  show ?thesis
    by (simp add: sendMessage_response_def on_the_wire_def w [simplified] merge_eval)
qed

text \<open>
  C7, amended. Merging the same update twice gives the state that merging it once gives,
  the order of the use cases included, for every state and every update whose use cases
  (if it has any) all have a primitive id: a string, as the declared type of an id is, or
  a number, a boolean, \<^verbatim>\<open>null\<close> or \<^verbatim>\<open>undefined\<close>. The same holds for the absent update,
  which changes nothing.
\<close>

theorem mergeState_idempotent:
  "mergeState (mergeState s None) None = mergeState s None
   \<and> (primitive_ids (useCases upd) \<longrightarrow>
        mergeState (mergeState s (Some upd)) (Some upd) = mergeState s (Some upd))"
proof (intro conjI impI)
  show "mergeState (mergeState s None) None = mergeState s None"
    by (simp add: mergeState_def)
next
  assume p: "primitive_ids (useCases upd)"
  have o: "\<And>p q. spread (spread p q) q = spread p q"
    unfolding spread_def by (rule fmap_ext) simp
  have t: "\<And>E I. useCases upd = Some I \<Longrightarrow> mergeUseCases (mergeUseCases E I) I = mergeUseCases E I"
  proof -
    fix E I assume "useCases upd = Some I"
    then have "\<forall>u\<in>set I. primitive (uc_id u)"
      using p by (simp add: primitive_ids_def list_all_iff)
    then show "mergeUseCases (mergeUseCases E I) I = mergeUseCases E I"
      by (rule mergeUseCases_twice)
  qed
  show "mergeState (mergeState s (Some upd)) (Some upd) = mergeState s (Some upd)"
    by (simp add: mergeState_def o t split: option.splits)
qed

theorem mergeState_idempotent_witness:
  "primitive_ids
     (useCases \<lparr>org = None, roles = None,
         useCases = Some [fmap_of_list [(''id'', JStr ''uc-1''), (''risk'', JStr ''high'')]]\<rparr>)
   \<and> mergeState
       (mergeState
          \<lparr>org = None, roles = Some [],
           useCases = Some [fmap_of_list [(''id'', JStr ''uc-1''), (''name'', JStr ''A'')]]\<rparr>
          (Some \<lparr>org = None, roles = None,
             useCases = Some [fmap_of_list [(''id'', JStr ''uc-1''), (''risk'', JStr ''high'')]]\<rparr>))
       (Some \<lparr>org = None, roles = None,
          useCases = Some [fmap_of_list [(''id'', JStr ''uc-1''), (''risk'', JStr ''high'')]]\<rparr>)
     = mergeState
          \<lparr>org = None, roles = Some [],
           useCases = Some [fmap_of_list [(''id'', JStr ''uc-1''), (''name'', JStr ''A'')]]\<rparr>
          (Some \<lparr>org = None, roles = None,
             useCases = Some [fmap_of_list [(''id'', JStr ''uc-1''), (''risk'', JStr ''high'')]]\<rparr>)
   \<and> useCases
        (mergeState
          \<lparr>org = None, roles = Some [],
           useCases = Some [fmap_of_list [(''id'', JStr ''uc-1''), (''name'', JStr ''A'')]]\<rparr>
          (Some \<lparr>org = None, roles = None,
             useCases = Some [fmap_of_list [(''id'', JStr ''uc-1''), (''risk'', JStr ''high'')]]\<rparr>))
     = Some [fmap_of_list
               [(''id'', JStr ''uc-1''), (''name'', JStr ''A''), (''risk'', JStr ''high'')]]"
proof -
  let ?s = "\<lparr>org = None, roles = Some [],
           useCases = Some [fmap_of_list [(''id'', JStr ''uc-1''), (''name'', JStr ''A'')]]\<rparr>"
  let ?u = "\<lparr>org = None, roles = None,
             useCases = Some [fmap_of_list [(''id'', JStr ''uc-1''), (''risk'', JStr ''high'')]]\<rparr>"
  have h: "primitive_ids (useCases ?u)" by (simp add: primitive_ids_def uc_id_def)
  have i: "mergeState (mergeState ?s (Some ?u)) (Some ?u) = mergeState ?s (Some ?u)"
    using mergeState_idempotent [of ?s ?u] h by blast
  have v: "useCases (mergeState ?s (Some ?u))
     = Some [fmap_of_list
               [(''id'', JStr ''uc-1''), (''name'', JStr ''A''), (''risk'', JStr ''high'')]]"
    by (simp add: merge_eval) (rule fmap_ext, auto)
  show ?thesis by (intro conjI) (rule h, rule i, rule v)
qed

text \<open>
  C5, as stated, fails. An update without \<^verbatim>\<open>useCases\<close> leaves the collection of the state
  as it is, two entries with the same id included. And an update whose \<^verbatim>\<open>useCases\<close> holds
  two records with the id \<^verbatim>\<open>{k: 1}\<close>, two objects for the \<^verbatim>\<open>Map\<close>, leaves both in the
  collection.
\<close>

theorem mergeState_keeps_duplicates:
  "\<not> distinct_ids
       (mergeState
          \<lparr>org = None, roles = Some [],
           useCases = Some [fmap_of_list [(''id'', JStr ''uc-1''), (''name'', JStr ''A'')],
                            fmap_of_list [(''id'', JStr ''uc-1''), (''name'', JStr ''B'')]]\<rparr>
          (Some \<lparr>org = None, roles = Some [''Deployer''], useCases = None\<rparr>))
   \<and> \<not> distinct_ids
       (mergeState initialState
          (Some \<lparr>org = None, roles = None,
                 useCases = Some
                   [fmap_of_list [(''id'', JObj (fmap_of_list [(''k'', JNum ''1'')]))],
                    fmap_of_list [(''id'', JObj (fmap_of_list [(''k'', JNum ''1'')]))]]\<rparr>))"
  by (simp add: merge_eval distinct_ids_def)

text \<open>
  C5, amended. The merged state has no two entries with the same id when the update
  carries \<^verbatim>\<open>useCases\<close> (an empty sequence included) and every id in the collection of the
  state and in that of the update is a primitive value, and also when the update carries
  no \<^verbatim>\<open>useCases\<close> and the state has no two entries with the same id.
\<close>

theorem mergeState_distinct_ids:
  assumes "(useCases u \<noteq> None \<and> primitive_ids (useCases s) \<and> primitive_ids (useCases u))
           \<or> (useCases u = None \<and> distinct_ids s)"
  shows "distinct_ids (mergeState s (Some u))"
proof (cases "useCases u")
  case None
  then show ?thesis using assms by (simp add: mergeState_def distinct_ids_def)
next
  case (Some I)
  then have pI: "\<forall>x\<in>set I. primitive (uc_id x)"
    using assms by (simp add: primitive_ids_def list_all_iff)
  let ?E = "case useCases s of Some e \<Rightarrow> e | None \<Rightarrow> []"
  have pE: "\<forall>x\<in>set ?E. primitive (uc_id x)"
    using assms Some by (auto simp: primitive_ids_def list_all_iff split: option.splits)
  have "distinct (map uc_id (mergeUseCases ?E I))"
    using pE pI by (rule mergeUseCases_distinct)
  then show ?thesis using Some by (simp add: mergeState_def distinct_ids_def)
qed

theorem mergeState_distinct_ids_witness:
  "useCases \<lparr>org = None, roles = None, useCases = Some []\<rparr> = Some []
   \<and> primitive_ids
       (useCases
          \<lparr>org = None, roles = Some [],
           useCases = Some [fmap_of_list [(''id'', JStr ''uc-1''), (''name'', JStr ''A'')],
                            fmap_of_list [(''id'', JStr ''uc-1''), (''name'', JStr ''B'')]]\<rparr>)
   \<and> primitive_ids (useCases \<lparr>org = None, roles = None, useCases = Some []\<rparr>)
   \<and> distinct_ids
         (mergeState
            \<lparr>org = None, roles = Some [],
             useCases = Some [fmap_of_list [(''id'', JStr ''uc-1''), (''name'', JStr ''A'')],
                              fmap_of_list [(''id'', JStr ''uc-1''), (''name'', JStr ''B'')]]\<rparr>
            (Some \<lparr>org = None, roles = None, useCases = Some []\<rparr>))"
proof -
  let ?s = "\<lparr>org = None, roles = Some [],
             useCases = Some [fmap_of_list [(''id'', JStr ''uc-1''), (''name'', JStr ''A'')],
                              fmap_of_list [(''id'', JStr ''uc-1''), (''name'', JStr ''B'')]]\<rparr>"
  let ?u = "\<lparr>org = None, roles = None, useCases = Some ([] :: obj list)\<rparr>"
  have a: "useCases ?u = Some []" by simp
  have b: "primitive_ids (useCases ?s)" by (simp add: primitive_ids_def uc_id_def)
  have c: "primitive_ids (useCases ?u)" by (simp add: primitive_ids_def)
  have h: "(useCases ?u \<noteq> None \<and> primitive_ids (useCases ?s) \<and> primitive_ids (useCases ?u))
           \<or> (useCases ?u = None \<and> distinct_ids ?s)"
    using b c by simp
  have d: "distinct_ids (mergeState ?s (Some ?u))"
    using h by (rule mergeState_distinct_ids)
  show ?thesis by (intro conjI) (rule a, rule b, rule c, rule d)
qed

section \<open>The sanitizer\<close>

text \<open>
  C3. On an input whose \<^verbatim>\<open>useCases\<close> holds \<^verbatim>\<open>null\<close> the sanitizer raises \<^verbatim>\<open>TypeError\<close>:
  the callback reads \<^verbatim>\<open>u.id\<close> of \<^verbatim>\<open>null\<close>.
\<close>

theorem sanitize_raises_on_null_use_case:
  "sanitizeStateUpdates now (JObj (fmap_of_list [(''useCases'', JArr [JNull])])) = Inl TypeError"
  by (simp add: sanitize_eval)

theorem sanitize_raises_on_null_use_case_witness:
  "sanitizeStateUpdates (\<lambda>i. 7) (JObj (fmap_of_list [(''useCases'', JArr [JNull])]))
     = Inl TypeError"
  using sanitize_raises_on_null_use_case [of "\<lambda>i. 7"] .

lemma sanitize_raises_on_unprintable_name:
  "sanitizeStateUpdates now
     (JObj (fmap_of_list
        [(''org'', JObj (fmap_of_list
            [(''name'', JObj (fmap_of_list [(''toString'', JNum ''1'')]))]))]))
   = Inl TypeError"
  by (simp add: sanitize_eval)

lemma sanitize_not_an_object:
  "\<not> truthy input \<or> \<not> typeof_object input \<Longrightarrow> sanitizeStateUpdates now input = Inr None"
  by (simp add: sanitizeStateUpdates_def)

lemma sanitize_primitive_use_case:
  "sanitizeStateUpdates (\<lambda>i. 7) (JObj (fmap_of_list [(''useCases'', JArr [JNum ''5''])]))
   = Inr (Some \<lparr>org = None, roles = None,
                useCases = Some [fmap_of_list
                  [(''id'', JStr ''uc-7-0''), (''name'', JUndefined),
                   (''description'', JUndefined), (''process'', JUndefined),
                   (''inScope'', JUndefined), (''risk'', JUndefined), (''model'', JUndefined),
                   (''data'', JUndefined), (''subjects'', JUndefined), (''owner'', JUndefined),
                   (''jurisdictions'', JUndefined)]]\<rparr>)"
  by (simp add: sanitize_eval show_nat.simps)

text \<open>
  C4, as stated, fails. An org field that is present but falsy is not copied: with
  \<^verbatim>\<open>{org: {name: "", size: 0}}\<close> both fields are present, and the output has
  \<^verbatim>\<open>undefined\<close> for both. Nor is a field omitted from the output of the sanitizer: the
  absent \<^verbatim>\<open>country\<close> and \<^verbatim>\<open>industry\<close> are keys of it, with the value \<^verbatim>\<open>undefined\<close>.
\<close>

theorem sanitize_org_falsy_fields_not_copied:
  "sanitizeStateUpdates (\<lambda>i. 7)
     (JObj (fmap_of_list
        [(''org'', JObj (fmap_of_list [(''name'', JStr ''''), (''size'', JNum ''0'')]))]))
   = Inr (Some \<lparr>org = Some (fmap_of_list
                    [(''name'', JUndefined), (''country'', JUndefined),
                     (''industry'', JUndefined), (''size'', JUndefined)]),
                roles = None, useCases = None\<rparr>)"
  by (simp add: sanitize_eval)

text \<open>
  C4, amended. For an input whose \<^verbatim>\<open>org\<close> is object-shaped, and on which the sanitizer
  returns, each of \<^verbatim>\<open>name\<close>, \<^verbatim>\<open>country\<close>, \<^verbatim>\<open>industry\<close> and \<^verbatim>\<open>size\<close> is, in the output,
  the string rendering of the input's field when that field is truthy, and \<^verbatim>\<open>undefined\<close>
  otherwise: when the field is absent, and when it is \<^verbatim>\<open>""\<close>, \<^verbatim>\<open>0\<close>, \<^verbatim>\<open>NaN\<close>, \<^verbatim>\<open>false\<close>
  or \<^verbatim>\<open>null\<close>; an absent field is not defaulted to the empty string. A field left
  \<^verbatim>\<open>undefined\<close> is not in the answer the page receives, and the merge of that answer
  leaves the field of the state as it was.
\<close>

theorem sanitize_org_fields_omitted:
  assumes "sanitizeStateUpdates now input = Inr (Some su)"
      and "truthy (js_get input ''org'')"
      and "typeof_object (js_get input ''org'')"
      and "f \<in> {''name'', ''country'', ''industry'', ''size''}"
  shows "\<exists>p. org su = Some p \<and>
           (if truthy (js_get (js_get input ''org'') f)
            then \<exists>t. js_String (js_get (js_get input ''org'') f) = Inr t \<and>
                     fmlookup p f = Some (JStr t)
            else fmlookup p f = Some JUndefined \<and>
                 org_field (on_the_wire su) f = None \<and>
                 (\<forall>s. org_field (mergeState s (Some (on_the_wire su))) f = org_field s f))"
proof -
  from sanitize_org_fields [OF sanitize_useCases_of(2) [OF assms(1)] assms(2,3,4)]
  obtain p where p: "org su = Some p"
    and c: "string_if_truthy (js_get (js_get input ''org'') f) = Inr (the (fmlookup p f))"
    and d: "fmlookup p f \<noteq> None" by blast
  from d obtain w where w: "fmlookup p f = Some w" by auto
  show ?thesis
  proof (cases "truthy (js_get (js_get input ''org'') f)")
    case True
    then show ?thesis using string_if_truthy_cases [OF c] p w by auto
  next
    case False
    then have u: "fmlookup p f = Some JUndefined"
      using string_if_truthy_cases [OF c] w by auto
    then have gone: "fmlookup (json_obj p) f = None" by (simp add: json_obj_lookup)
    have "org_field (on_the_wire su) f = None"
      using p gone by (simp add: org_field_def on_the_wire_def)
    moreover have "\<forall>s. org_field (mergeState s (Some (on_the_wire su))) f = org_field s f"
      using p gone
      by (auto simp: org_field_def on_the_wire_def mergeState_def spread_def fmlookup_dom_iff
               split: option.splits)
    ultimately show ?thesis using False p u by auto
  qed
qed

theorem sanitize_org_fields_omitted_witness:
  "sanitizeStateUpdates (\<lambda>i. 7)
       (JObj (fmap_of_list [(''org'', JObj (fmap_of_list [(''name'', JStr ''Acme'')]))]))
     = Inr (Some \<lparr>org = Some (fmap_of_list
                      [(''name'', JStr ''Acme''), (''country'', JUndefined),
                       (''industry'', JUndefined), (''size'', JUndefined)]),
                  roles = None, useCases = None\<rparr>)
   \<and> org_field
        (mergeState
           \<lparr>org = Some (fmap_of_list [(''name'', JStr ''Old''), (''country'', JStr ''Latvia'')]),
            roles = Some [], useCases = Some []\<rparr>
           (Some (on_the_wire
              \<lparr>org = Some (fmap_of_list
                      [(''name'', JStr ''Acme''), (''country'', JUndefined),
                       (''industry'', JUndefined), (''size'', JUndefined)]),
               roles = None, useCases = None\<rparr>)))
        ''country''
     = Some (JStr ''Latvia'')"
proof -
  let ?input = "JObj (fmap_of_list [(''org'', JObj (fmap_of_list [(''name'', JStr ''Acme'')]))])"
  let ?su = "\<lparr>org = Some (fmap_of_list
                      [(''name'', JStr ''Acme''), (''country'', JUndefined),
                       (''industry'', JUndefined), (''size'', JUndefined)]),
                  roles = None, useCases = None\<rparr>"
  let ?s = "\<lparr>org = Some (fmap_of_list [(''name'', JStr ''Old''), (''country'', JStr ''Latvia'')]),
            roles = Some [], useCases = Some []\<rparr>"
  have h1: "sanitizeStateUpdates (\<lambda>i. 7) ?input = Inr (Some ?su)"
    by (simp add: sanitize_eval)
  have h2: "truthy (js_get ?input ''org'')" by simp
  have h3: "typeof_object (js_get ?input ''org'')" by simp
  have h4: "''country'' \<in> {''name'', ''country'', ''industry'', ''size''}" by simp
  have n: "\<not> truthy (js_get (js_get ?input ''org'') ''country'')" by simp
  from sanitize_org_fields_omitted [OF h1 h2 h3 h4] n
  have "org_field (mergeState ?s (Some (on_the_wire ?su))) ''country'' = org_field ?s ''country''"
    by auto
  then show ?thesis using h1 by (simp add: org_field_def)
qed

text \<open>
  C10. Every use case the sanitizer returns has a truthy \<^verbatim>\<open>id\<close>: the \<^verbatim>\<open>id\<close> of the
  input element when that is truthy, and \<^verbatim>\<open>uc-<timestamp>-<index>\<close> when it is absent
  or falsy, the empty string included.
\<close>

theorem sanitize_ids_truthy:
  assumes "sanitizeStateUpdates now input = Inr (Some su)"
      and "js_get input ''useCases'' = JArr us"
  shows "\<exists>ucs. useCases su = Some ucs \<and> length ucs = length us \<and>
           (\<forall>i<length us.
              truthy (uc_id (ucs ! i)) \<and>
              uc_id (ucs ! i) =
                (if truthy (js_get (us ! i) ''id'') then js_get (us ! i) ''id''
                 else JStr (''uc-'' @ show_nat (now i) @ ''-'' @ show_nat i)))"
proof -
  from sanitize_useCases_of(1) [OF assms(1)] assms(2)
  obtain ucs where m: "map_index (sanitizeUseCase now) 0 us = Inr ucs"
    and u: "useCases su = Some ucs"
    by (auto simp: sanitize_useCases_def and_then_Inr)
  from map_index_Inr [OF m] have l: "length ucs = length us"
    and e: "\<forall>j<length us. sanitizeUseCase now j (us ! j) = Inr (ucs ! j)" by auto
  have "\<forall>i<length us.
              truthy (uc_id (ucs ! i)) \<and>
              uc_id (ucs ! i) =
                (if truthy (js_get (us ! i) ''id'') then js_get (us ! i) ''id''
                 else JStr (''uc-'' @ show_nat (now i) @ ''-'' @ show_nat i))"
  proof (intro allI impI)
    fix i assume "i < length us"
    then have "sanitizeUseCase now i (us ! i) = Inr (ucs ! i)" using e by simp
    from sanitizeUseCase_id [OF this] show "truthy (uc_id (ucs ! i)) \<and>
              uc_id (ucs ! i) =
                (if truthy (js_get (us ! i) ''id'') then js_get (us ! i) ''id''
                 else JStr (''uc-'' @ show_nat (now i) @ ''-'' @ show_nat i))"
      by simp
  qed
  with u l show ?thesis by blast
qed

theorem sanitize_ids_truthy_witness:
  "sanitizeStateUpdates (\<lambda>i. 7)
       (JObj (fmap_of_list
          [(''useCases'', JArr [JObj (fmap_of_list [(''id'', JStr ''uc-1'')]),
                                JObj (fmap_of_list [(''id'', JStr '''')])])]))
     \<noteq> Inl TypeError
   \<and> (\<exists>su ucs.
        sanitizeStateUpdates (\<lambda>i. 7)
          (JObj (fmap_of_list
             [(''useCases'', JArr [JObj (fmap_of_list [(''id'', JStr ''uc-1'')]),
                                   JObj (fmap_of_list [(''id'', JStr '''')])])]))
          = Inr (Some su)
        \<and> useCases su = Some ucs \<and> length ucs = 2
        \<and> uc_id (ucs ! 0) = JStr ''uc-1'' \<and> uc_id (ucs ! 1) = JStr ''uc-7-1'')"
proof -
  let ?us = "[JObj (fmap_of_list [(''id'', JStr ''uc-1'')]),
              JObj (fmap_of_list [(''id'', JStr '''')])]"
  let ?input = "JObj (fmap_of_list [(''useCases'', JArr ?us)])"
  obtain su where h1: "sanitizeStateUpdates (\<lambda>i. 7) ?input = Inr (Some su)"
    by (simp add: sanitize_eval)
  have h2: "js_get ?input ''useCases'' = JArr ?us" by simp
  from sanitize_ids_truthy [OF h1 h2] obtain ucs where
    u: "useCases su = Some ucs" and l: "length ucs = length ?us" and
    e: "\<forall>i<length ?us. truthy (uc_id (ucs ! i)) \<and>
              uc_id (ucs ! i) =
                (if truthy (js_get (?us ! i) ''id'') then js_get (?us ! i) ''id''
                 else JStr (''uc-'' @ show_nat ((\<lambda>i. 7) i) @ ''-'' @ show_nat i))"
    by blast
  have e0: "uc_id (ucs ! 0) = JStr ''uc-1''" using e [rule_format, of 0] by simp
  have e1: "uc_id (ucs ! 1) = JStr ''uc-7-1''"
    using e [rule_format, of 1] by (simp add: show_nat.simps)
  show ?thesis using h1 u l e0 e1 by auto
qed

section \<open>The response extractor and the turn\<close>

text \<open>
  C8, as stated, fails: when the closing fence of a stray block is followed by the word
  \<^verbatim>\<open>JSON\<close>, the pattern \<^verbatim>\<open>```json\<close> matches there. The candidate is then the prose up to
  the next fence, not the interior \<^verbatim>\<open>{}\<close> of the tagged block, and the narrative loses
  the prose \<^verbatim>\<open>JSON:\<close> that stood outside both blocks.
\<close>

theorem tagged_block_missed:
  "jsonText ''```ls```JSON: ```json{}```'' = Some '': ''
   \<and> jsonText ''```ls```JSON: ```json{}```'' \<noteq> Some ''{}''
   \<and> cleanReply ''```ls```JSON: ```json{}```'' = []
   \<and> cleanReply ''```ls```JSON: ```json{}```'' \<noteq> ''JSON:''"
  by (simp add: text_eval)

text \<open>
  C8, amended. Take a text made of a block tagged \<^verbatim>\<open>json\<close> (in any case) and a stray block
  not tagged so, in either order, whose parts before, inside, between and after the
  blocks hold no \<^verbatim>\<open>```\<close> and have no backtick at either end. The candidate is the interior
  of the tagged block without its leading whitespace, and the narrative is the text
  without both blocks, trimmed; when the stray block comes first, this needs the text
  after its closing fence not to begin with \<^verbatim>\<open>json\<close>.
\<close>

theorem tagged_block_extracted:
  assumes "plain_text pre" and "plain_text inner" and "plain_text mid"
      and "plain_text stray" and "plain_text post"
      and "map to_upper tag = ''JSON''"
      and "\<not> ci_prefix ''json'' stray"
  shows "jsonText (pre @ fence @ tag @ inner @ fence @ mid @ fence @ stray @ fence @ post)
           = Some (dropWhile is_space inner)
       \<and> cleanReply (pre @ fence @ tag @ inner @ fence @ mid @ fence @ stray @ fence @ post)
           = trim (pre @ mid @ post)
       \<and> (\<not> ci_prefix ''json'' mid \<longrightarrow>
            jsonText (pre @ fence @ stray @ fence @ mid @ fence @ tag @ inner @ fence @ post)
              = Some (dropWhile is_space inner)
          \<and> cleanReply (pre @ fence @ stray @ fence @ mid @ fence @ tag @ inner @ fence @ post)
              = trim (pre @ mid @ post))"
proof (intro conjI impI)
  note q = plain_text_quiet [OF assms(1)] plain_text_quiet [OF assms(2)]
    plain_text_quiet [OF assms(3)] plain_text_quiet [OF assms(4)]
  note nf = plain_text_no_fence [OF assms(5)]
  note js = strip_blocks_skip [OF opens_json_prefix] strip_blocks_plain [OF opens_json_prefix]
  note fs = strip_blocks_skip [OF opens_fence_prefix] strip_blocks_plain [OF opens_fence_prefix]
  let ?r1 = "pre @ fence @ tag @ inner @ fence @ mid @ fence @ stray @ fence @ post"
  let ?r2 = "pre @ fence @ stray @ fence @ mid @ fence @ tag @ inner @ fence @ post"
  have "after_json_tag ?r1 = Some (inner @ fence @ mid @ fence @ stray @ fence @ post)"
    using q(1) assms(6) by (simp add: after_json_tag_skip after_json_tag_here)
  then have "fenced ?r1 = Some (dropWhile is_space inner)"
    using capture_inner [OF q(2)] by (simp add: fenced_def)
  then show "jsonText ?r1 = Some (dropWhile is_space inner)" by (simp add: jsonText_def)
  have "strip_blocks opens_json 7 0 ?r1
          = pre @ strip_blocks opens_json 7 0 (mid @ fence @ stray @ fence @ post)"
    using q(1,2) assms(6) by (simp add: js strip_json_block)
  also have "\<dots> = pre @ mid @ fence @ stray @ fence @ post"
    using q(3) assms(4,7) nf by (simp add: js strip_json_stray strip_json_last_fence)
  finally have "strip_blocks opens_fence 3 0 (strip_blocks opens_json 7 0 ?r1)
                  = pre @ mid @ strip_blocks opens_fence 3 0 (fence @ stray @ fence @ post)"
    using q(1,3) by (simp add: fs)
  also have "\<dots> = pre @ mid @ post"
    using q(4) nf by (simp add: strip_fence_block fs)
  finally show "cleanReply ?r1 = trim (pre @ mid @ post)" by (simp add: cleanReply_def)
  {
    assume m: "\<not> ci_prefix ''json'' mid"
    have "after_json_tag ?r2 = after_json_tag (fence @ mid @ fence @ tag @ inner @ fence @ post)"
      using q(1) assms(4,7) by (simp add: after_json_tag_skip after_json_tag_stray)
    also have "\<dots> = after_json_tag (fence @ tag @ inner @ fence @ post)"
      using assms(3) m by (simp add: after_json_tag_stray)
    also have "\<dots> = Some (inner @ fence @ post)"
      using assms(6) by (simp add: after_json_tag_here)
    finally have "fenced ?r2 = Some (dropWhile is_space inner)"
      using capture_inner [OF q(2)] by (simp add: fenced_def)
    then show "jsonText ?r2 = Some (dropWhile is_space inner)" by (simp add: jsonText_def)
  }
  {
    assume m: "\<not> ci_prefix ''json'' mid"
    have "strip_blocks opens_json 7 0 ?r2
            = pre @ fence @ stray
                @ strip_blocks opens_json 7 0 (fence @ mid @ fence @ tag @ inner @ fence @ post)"
      using q(1) assms(4,7) by (simp add: js strip_json_stray)
    also have "strip_blocks opens_json 7 0 (fence @ mid @ fence @ tag @ inner @ fence @ post)
            = fence @ mid @ strip_blocks opens_json 7 0 (fence @ tag @ inner @ fence @ post)"
      using assms(3) m by (simp add: strip_json_stray)
    also have "strip_blocks opens_json 7 0 (fence @ tag @ inner @ fence @ post) = post"
      using q(2) nf assms(6) by (simp add: strip_json_block js)
    finally have "strip_blocks opens_fence 3 0 (strip_blocks opens_json 7 0 ?r2)
                    = pre @ strip_blocks opens_fence 3 0 (fence @ stray @ fence @ mid @ post)"
      using q(1) by (simp add: fs)
    also have "\<dots> = pre @ mid @ post"
      using q(3,4) nf by (simp add: strip_fence_block fs)
    finally show "cleanReply ?r2 = trim (pre @ mid @ post)" by (simp add: cleanReply_def)
  }
qed

theorem tagged_block_extracted_witness:
  "jsonText ''Use `x`. ```JSON {a:1} ``` B ```py x``` C'' = Some ''{a:1} ''
   \<and> cleanReply ''Use `x`. ```JSON {a:1} ``` B ```py x``` C'' = ''Use `x`.  B  C''
   \<and> jsonText ''Use `x`. ```py x``` B ```JSON {a:1} ``` C'' = Some ''{a:1} ''
   \<and> cleanReply ''Use `x`. ```py x``` B ```JSON {a:1} ``` C'' = ''Use `x`.  B  C''"
proof -
  have h: "plain_text ''Use `x`. ''" "plain_text '' {a:1} ''" "plain_text '' B ''"
    "plain_text ''py x''" "plain_text '' C''"
    "map to_upper ''JSON'' = ''JSON''" "\<not> ci_prefix ''json'' ''py x''"
    by (simp_all add: to_upper_def plain_text_def fence_def)
  have m: "\<not> ci_prefix ''json'' '' B ''" by (simp add: to_upper_def)
  have d: "dropWhile is_space '' {a:1} '' = ''{a:1} ''" by (simp add: is_space_def)
  have t: "trim (''Use `x`. '' @ '' B '' @ '' C'') = ''Use `x`.  B  C''"
    by (simp add: trim_def is_space_def)
  show ?thesis
    using tagged_block_extracted [OF h] m d t by (simp add: fence_def)
qed

text \<open>
  C9. When the candidate is missing, empty or refused by \<^verbatim>\<open>JSON.parse\<close>, the handler
  still answers with status 200: the narrative is the text without its fenced blocks,
  trimmed, every structured field is absent, and the page's state after the answer is
  the state before it.
\<close>

theorem unparsable_payload_is_absorbed:
  assumes "\<forall>t. jsonText text = Some t \<longrightarrow> t \<noteq> [] \<longrightarrow> parse t = None"
  shows "handler_reply parse now text =
           Success \<lparr>reply = cleanReply text, suggestions = None, guidance = None,
                    questions = None, examples = None, roadmap = None,
                    stateUpdates = None, topUseCases = None\<rparr>
       \<and> sendMessage_response (handler_reply parse now text) s = s"
proof -
  have "(case jsonText text of None \<Rightarrow> None | Some t \<Rightarrow> if t = [] then None else parse t) = None"
    using assms by (auto split: option.splits)
  then have "handler_reply parse now text =
           Success \<lparr>reply = cleanReply text, suggestions = None, guidance = None,
                    questions = None, examples = None, roadmap = None,
                    stateUpdates = None, topUseCases = None\<rparr>"
    by (simp add: handler_reply_def)
  then show ?thesis by (simp add: sendMessage_response_def)
qed

theorem unparsable_payload_is_absorbed_witness:
  "jsonText ''Noted. {not: valid json} ```py x```'' = Some ''{not: valid json}''
   \<and> handler_reply (\<lambda>t. if t = ''{}'' then Some (JObj fmempty) else None) (\<lambda>i. 7)
        ''Noted. {not: valid json} ```py x```''
     = Success \<lparr>reply = ''Noted. {not: valid json}'', suggestions = None, guidance = None,
                questions = None, examples = None, roadmap = None,
                stateUpdates = None, topUseCases = None\<rparr>
   \<and> sendMessage_response
        (handler_reply (\<lambda>t. if t = ''{}'' then Some (JObj fmempty) else None) (\<lambda>i. 7)
           ''Noted. {not: valid json} ```py x```'')
        initialState
     = initialState"
proof -
  let ?parse = "\<lambda>t. if t = ''{}'' then Some (JObj fmempty) else None"
  let ?text = "''Noted. {not: valid json} ```py x```''"
  have j: "jsonText ?text = Some ''{not: valid json}''" by (simp add: text_eval)
  then have h: "\<forall>t. jsonText ?text = Some t \<longrightarrow> t \<noteq> [] \<longrightarrow> ?parse t = None" by simp
  have c: "cleanReply ?text = ''Noted. {not: valid json}''" by (simp add: text_eval)
  from unparsable_payload_is_absorbed [of ?text ?parse "\<lambda>i. 7" initialState, OF h]
  have r1: "handler_reply ?parse (\<lambda>i. 7) ?text =
           Success \<lparr>reply = cleanReply ?text, suggestions = None, guidance = None,
                    questions = None, examples = None, roadmap = None,
                    stateUpdates = None, topUseCases = None\<rparr>"
    and r2: "sendMessage_response (handler_reply ?parse (\<lambda>i. 7) ?text) initialState
               = initialState"
    by blast+
  have r1': "handler_reply ?parse (\<lambda>i. 7) ?text =
           Success \<lparr>reply = ''Noted. {not: valid json}'', suggestions = None, guidance = None,
                    questions = None, examples = None, roadmap = None,
                    stateUpdates = None, topUseCases = None\<rparr>"
    using r1 by (simp only: c)
  show ?thesis using j r1' r2 by blast
qed

text \<open>
  C2, as stated, fails: the handler tests \<^verbatim>\<open>!input\<close>, which a text of three spaces
  passes, and goes on to call the upstream model.
\<close>

theorem handler_forwards_blank_input:
  "handler_request
     \<lparr>http_method = ''POST'', body = JObj (fmap_of_list [(''input'', JStr ''   '')])\<rparr>
     \<lparr>OPENAI_API_KEY = Some ''sk-test'', OPENAI_MODEL = None\<rparr>
   = Inr \<lparr>call_model = ''gpt-4o-mini'', call_message = ''   '', call_state = JObj fmempty\<rparr>"
  by (simp add: handler_request_def)

text \<open>
  C2, amended. A \<^verbatim>\<open>POST\<close> request whose \<^verbatim>\<open>input\<close> is missing, not a string or the empty
  string is answered with status 400 before any request to the upstream model, and that
  answer leaves the page's state as it was. A text that is empty or all whitespace does
  not reach the handler: \<^verbatim>\<open>sendMessage\<close> trims it and returns, having sent nothing and
  changed nothing.
\<close>

theorem blank_turn_rejected:
  assumes "http_method req = ''POST''"
      and "\<forall>t. js_get (body req) ''input'' = JStr t \<longrightarrow> t = []"
      and "\<forall>c\<in>set text. is_space c"
  shows \<open>handler_request req env = Inl (Failure 400 ''Missing "input" string in body'')
       \<and> sendMessage_response (Failure 400 ''Missing "input" string in body'') s = s
       \<and> sendMessage_request text loading s = None\<close>
proof -
  have "\<not> truthy (js_get (body req) ''input'') \<or> \<not> typeof_string (js_get (body req) ''input'')"
    using assms(2) by (cases "js_get (body req) ''input''") auto
  then have \<open>handler_request req env = Inl (Failure 400 ''Missing "input" string in body'')\<close>
    using assms(1) by (auto simp: handler_request_def Let_def input_of_body)
  moreover have "trim text = []"
  proof -
    have d: "dropWhile is_space text = []" using assms(3) by simp
    show ?thesis by (simp only: trim_def d rev.simps dropWhile.simps)
  qed
  ultimately show ?thesis by (simp add: sendMessage_response_def sendMessage_request_def)
qed

theorem blank_turn_rejected_witness:
  \<open>handler_request
     \<lparr>http_method = ''POST'', body = JObj (fmap_of_list [(''input'', JStr [])])\<rparr>
     \<lparr>OPENAI_API_KEY = Some ''sk-test'', OPENAI_MODEL = None\<rparr>
     = Inl (Failure 400 ''Missing "input" string in body'')
   \<and> sendMessage_response (Failure 400 ''Missing "input" string in body'') initialState
     = initialState
   \<and> sendMessage_request ''   '' False initialState = None\<close>
proof -
  let ?req = "\<lparr>http_method = ''POST'', body = JObj (fmap_of_list [(''input'', JStr [])])\<rparr>"
  have h1: "http_method ?req = ''POST''" by simp
  have h2: "\<forall>t. js_get (body ?req) ''input'' = JStr t \<longrightarrow> t = []" by simp
  have h3: "\<forall>c\<in>set ''   ''. is_space c" by (simp add: is_space_def)
  show ?thesis using blank_turn_rejected [OF h1 h2 h3] by blast
qed

end
